theory Spec2Isabelle
  imports Complex_Main "HOL-Library.Multiset"
begin

section \<open>Data model\<close>

text \<open>
  The notebook defines two classes, \<open>Hit\<close> and \<open>CosimaSim\<close>. Times and energies are
  astropy quantities over Python floats; here they are real numbers in seconds and keV
  (unit conversion is the identity, and the arithmetic is exact). Hit objects are
  mutable and shared by reference (\<open>merge\<close> assigns to \<open>hit.time\<close>), so hits live
  in a store: a list of hit values, the address of a hit being its index, and a run
  holds addresses.
\<close>

record hit =
  time :: real
  detector :: string
  energy :: real

type_synonym ref = nat
type_synonym store = "hit list"

text \<open>\<open>CosimaSim.__init__\<close>: the three scalar fields start as \<open>None\<close>, \<open>hits\<close> as \<open>[]\<close>.\<close>

record sim =
  tstart :: "real option"
  tstop :: "real option"
  nthrown :: "int option"
  hits :: "ref list"

definition init_sim :: sim where
  "init_sim = \<lparr>tstart = None, tstop = None, nthrown = None, hits = []\<rparr>"

text \<open>
  Exceptions, under the names Python gives them. \<open>NameError\<close> carries the name that is
  not defined: the statement \<open>raise InputError(...)\<close> of \<open>open\<close> names a class that
  the notebook neither defines nor imports, so evaluating it raises
  \<open>NameError: name 'InputError' is not defined\<close>. \<open>MissingRequiredField k\<close> is the
  failure of the assertion whose message names the key \<open>k\<close> (an \<open>AssertionError\<close>).
  The others are raised by indexing, by \<open>float\<close> and \<open>int\<close>, by the dictionary lookup,
  by reading the local \<open>time\<close> before it was assigned, and by arithmetic on \<open>None\<close>.
  \<open>NonFinite\<close> is not a Python exception: it marks the edge of the model, where
  \<open>float\<close> returns \<open>inf\<close> or \<open>nan\<close>, which are no real numbers.
\<close>

datatype error =
    NameError string
  | MissingRequiredField string
  | IndexError
  | ValueError
  | KeyError string
  | UnboundLocalError
  | TypeError
  | NonFinite

section \<open>Strings\<close>

text \<open>
  A character of the model is a code point below 256. The whitespace of \<open>str.split()\<close>
  and \<open>str.strip()\<close> among them: 0x09-0x0D, 0x1C-0x1F, 0x20, 0x85 and 0xA0.
\<close>

definition isspace :: "char \<Rightarrow> bool" where
  "isspace c =
     (let n = (of_char c :: nat)
      in (9 \<le> n \<and> n \<le> 13) \<or> (28 \<le> n \<and> n \<le> 32) \<or> n = 133 \<or> n = 160)"

text \<open>
  The whitespace that \<open>float\<close> and \<open>int\<close> skip around a number: 0x09-0x0D and 0x20,
  and the whitespace beyond ASCII, which they first replace by a space. 0x1C-0x1F are not
  skipped.
\<close>

definition isspace_number :: "char \<Rightarrow> bool" where
  "isspace_number c =
     (let n = (of_char c :: nat)
      in (9 \<le> n \<and> n \<le> 13) \<or> n = 32 \<or> n = 133 \<or> n = 160)"

definition isdigit :: "char \<Rightarrow> bool" where
  "isdigit c = (let n = (of_char c :: nat) in 48 \<le> n \<and> n \<le> 57)"

text \<open>\<open>str.split()\<close> without argument: the maximal runs of non-whitespace characters.\<close>

fun split_ws :: "string \<Rightarrow> string \<Rightarrow> string list" where
  "split_ws cur [] = (if cur = [] then [] else [cur])"
| "split_ws cur (c # cs) =
     (if isspace c then (if cur = [] then split_ws [] cs else cur # split_ws [] cs)
      else split_ws (cur @ [c]) cs)"

definition py_split :: "string \<Rightarrow> string list" where
  "py_split s = split_ws [] s"

text \<open>\<open>str.split(sep)\<close> for a one-character separator: empty fields are kept.\<close>

fun split_on :: "char \<Rightarrow> string \<Rightarrow> string \<Rightarrow> string list" where
  "split_on sep cur [] = [cur]"
| "split_on sep cur (c # cs) =
     (if c = sep then cur # split_on sep [] cs else split_on sep (cur @ [c]) cs)"

definition py_split_sep :: "char \<Rightarrow> string \<Rightarrow> string list" where
  "py_split_sep sep s = split_on sep [] s"

definition strip :: "string \<Rightarrow> string" where
  "strip s = rev (dropWhile isspace (rev (dropWhile isspace s)))"

definition strip_number :: "string \<Rightarrow> string" where
  "strip_number s = rev (dropWhile isspace_number (rev (dropWhile isspace_number s)))"

text \<open>Indexing a list with a non-negative index; out of range raises \<open>IndexError\<close>.\<close>

definition index :: "'a list \<Rightarrow> nat \<Rightarrow> error + 'a" where
  "index xs i = (if i < length xs then Inr (xs ! i) else Inl IndexError)"

subsection \<open>Number literals\<close>

text \<open>
  A digit part of a Python number literal: digits, with single underscores allowed
  between two digits.
\<close>

fun digitpart :: "string \<Rightarrow> bool" where
  "digitpart [] = False"
| "digitpart [c] = isdigit c"
| "digitpart (c # d # cs) =
     (isdigit c \<and> (if d = CHR ''_'' then digitpart cs else digitpart (d # cs)))"

definition digits_of :: "string \<Rightarrow> string" where
  "digits_of s = filter (\<lambda>c. c \<noteq> CHR ''_'') s"

definition digits_val :: "string \<Rightarrow> nat" where
  "digits_val s = foldl (\<lambda>a c. 10 * a + (of_char c - 48)) 0 (digits_of s)"

definition split_sign :: "string \<Rightarrow> bool \<times> string" where
  "split_sign s =
     (case s of
        [] \<Rightarrow> (False, [])
      | c # cs \<Rightarrow> if c = CHR ''-'' then (True, cs) else if c = CHR ''+'' then (False, cs) else (False, s))"

text \<open>\<open>int(s)\<close> in base 10: surrounding whitespace, a sign, a digit part.\<close>

definition py_int :: "string \<Rightarrow> error + int" where
  "py_int s =
     (let (neg, ds) = split_sign (strip_number s) in
      if digitpart ds then Inr (if neg then - int (digits_val ds) else int (digits_val ds))
      else Inl ValueError)"

definition lower :: "char \<Rightarrow> char" where
  "lower c = (let n = (of_char c :: nat) in if 65 \<le> n \<and> n \<le> 90 then char_of (n + 32) else c)"

text \<open>The text before the first character satisfying \<open>P\<close>, and the text after it, if any.\<close>

definition cut_at :: "(char \<Rightarrow> bool) \<Rightarrow> string \<Rightarrow> string \<times> string option" where
  "cut_at P s =
     (case dropWhile (\<lambda>c. \<not> P c) s of
        [] \<Rightarrow> (s, None)
      | _ # r \<Rightarrow> (takeWhile (\<lambda>c. \<not> P c) s, Some r))"

definition scale10 :: "real \<Rightarrow> int \<Rightarrow> real" where
  "scale10 x e = (if 0 \<le> e then x * 10 ^ nat e else x / 10 ^ nat (- e))"

text \<open>
  \<open>float(s)\<close>: surrounding whitespace, a sign, then \<open>inf\<close>, \<open>infinity\<close> or \<open>nan\<close> in any
  case (no real number: \<open>NonFinite\<close>), or a decimal literal: digits with an optional
  point, at least one digit in all, and an optional exponent. The value is the exact
  decimal value: Python rounds it to the nearest double and returns \<open>inf\<close> beyond the
  largest one, which real numbers do not show.
\<close>

definition py_float :: "string \<Rightarrow> error + real" where
  "py_float s =
     (let (neg, body) = split_sign (strip_number s) in
      if map lower body \<in> set [''inf'', ''infinity'', ''nan''] then Inl NonFinite
      else
        let (mant, ex) = cut_at (\<lambda>c. c = CHR ''e'' \<or> c = CHR ''E'') body;
            (ip, fo) = cut_at (\<lambda>c. c = CHR ''.'') mant;
            fp = (case fo of None \<Rightarrow> [] | Some f \<Rightarrow> f);
            mant_ok = (case fo of
                         None \<Rightarrow> digitpart ip
                       | Some f \<Rightarrow> (ip = [] \<or> digitpart ip) \<and> (f = [] \<or> digitpart f)
                                   \<and> \<not> (ip = [] \<and> f = []));
            ex_ok = (case ex of None \<Rightarrow> True | Some e \<Rightarrow> digitpart (snd (split_sign e)));
            ev = (case ex of
                    None \<Rightarrow> 0
                  | Some e \<Rightarrow> (let (eneg, ed) = split_sign e
                               in if eneg then - int (digits_val ed) else int (digits_val ed)));
            m = real (digits_val (ip @ fp)) / 10 ^ length (digits_of fp)
        in if mant_ok \<and> ex_ok then Inr (scale10 (if neg then - m else m) ev)
           else Inl ValueError)"

section \<open>Reading the log\<close>

text \<open>
  The file is its text (after Python's newline translation). \<open>readlines\<close> is the
  sequence of values that the calls of \<open>file.readline()\<close> return before the empty
  string that ends the loop: each line with its newline, the last one possibly without.
\<close>

fun readlines_aux :: "string \<Rightarrow> string \<Rightarrow> string list" where
  "readlines_aux cur [] = (if cur = [] then [] else [cur])"
| "readlines_aux cur (c # cs) =
     (if c = CHR 0x0A then (cur @ [c]) # readlines_aux [] cs
      else readlines_aux (cur @ [c]) cs)"

definition readlines :: "string \<Rightarrow> string list" where
  "readlines s = readlines_aux [] s"

text \<open>
  The state of the loop of \<open>open\<close>: the object under construction, the flag
  \<open>in_events\<close>, the local variable \<open>time\<close> (\<open>None\<close> while unassigned), and the store
  in which the \<open>Hit\<close> objects are allocated.
\<close>

record scan_state =
  obj :: sim
  in_events :: bool
  time_var :: "real option"
  heap :: store

definition second_token :: "string \<Rightarrow> error + string" where
  "second_token line = index (py_split line) 1"

text \<open>\<open>float(line.split()[1]) * u.second + time_shift\<close>\<close>

definition read_time :: "string \<Rightarrow> real \<Rightarrow> error + real" where
  "read_time line time_shift =
     (case second_token line of
        Inl e \<Rightarrow> Inl e
      | Inr tok \<Rightarrow> (case py_float tok of Inl e \<Rightarrow> Inl e | Inr v \<Rightarrow> Inr (v + time_shift)))"

text \<open>\<open>int(line.split()[1])\<close>\<close>

definition read_count :: "string \<Rightarrow> error + int" where
  "read_count line =
     (case second_token line of Inl e \<Rightarrow> Inl e | Inr tok \<Rightarrow> py_int tok)"

text \<open>
  The chain \<open>if key == 'TB' ... elif ... 'SE' ... 'TE' ... 'TS' ... 'NF' or 'IN'\<close>. Its
  last branch is \<open>raise InputError(...)\<close>, which ends in the \<open>NameError\<close>.
\<close>

definition global_keys :: "string \<Rightarrow> real \<Rightarrow> scan_state \<Rightarrow> error + scan_state" where
  "global_keys line time_shift st =
     (let key = take 2 line in
      if key = ''TB'' then
        (case read_time line time_shift of
           Inl e \<Rightarrow> Inl e
         | Inr v \<Rightarrow> Inr (st\<lparr>obj := (obj st)\<lparr>tstart := Some v\<rparr>\<rparr>))
      else if key = ''SE'' then Inr (st\<lparr>in_events := True\<rparr>)
      else if key = ''TE'' then
        (case read_time line time_shift of
           Inl e \<Rightarrow> Inl e
         | Inr v \<Rightarrow> Inr (st\<lparr>obj := (obj st)\<lparr>tstop := Some v\<rparr>\<rparr>))
      else if key = ''TS'' then
        (case read_count line of
           Inl e \<Rightarrow> Inl e
         | Inr n \<Rightarrow> Inr (st\<lparr>obj := (obj st)\<lparr>nthrown := Some n\<rparr>\<rparr>))
      else if key = ''NF'' \<or> key = ''IN'' then Inl (NameError ''InputError'')
      else Inr st)"

text \<open>
  The \<open>HT\<close> record: fields 1, 2 and 4 of \<open>line.split(';')\<close>, the detector looked up
  under \<open>x.strip()+','+y.strip()\<close>, the energy converted, and then
  \<open>Hit(detector, time, energy)\<close>, which reads \<open>time\<close>. The new object is appended to
  \<open>obj.hits\<close>.
\<close>

definition read_hit ::
  "string \<Rightarrow> (string \<rightharpoonup> string) \<Rightarrow> scan_state \<Rightarrow> error + scan_state" where
  "read_hit line detector_dict st =
     (let fields = py_split_sep (CHR '';'') line in
      if length fields < 5 then Inl IndexError
      else
        let x = fields ! 1; y = fields ! 2; en = fields ! 4;
            k = strip x @ '','' @ strip y
        in case detector_dict k of
             None \<Rightarrow> Inl (KeyError k)
           | Some d \<Rightarrow>
               (case py_float en of
                  Inl e \<Rightarrow> Inl e
                | Inr v \<Rightarrow>
                    (case time_var st of
                       None \<Rightarrow> Inl UnboundLocalError
                     | Some t \<Rightarrow>
                         Inr (st\<lparr>obj := (obj st)\<lparr>hits := hits (obj st) @ [length (heap st)]\<rparr>,
                                 heap := heap st @ [\<lparr>time = t, detector = d, energy = v\<rparr>]\<rparr>))))"

text \<open>
  One pass of the loop body for one line. Inside an event block \<open>EN\<close> leaves the
  block, \<open>TI\<close> assigns \<open>time\<close>, every key other than \<open>HT\<close> then continues with the next
  line, and an \<open>HT\<close> line falls through to the chain of global keys after its hit
  was appended.
\<close>

definition step ::
  "(string \<rightharpoonup> string) \<Rightarrow> real \<Rightarrow> scan_state \<Rightarrow> string \<Rightarrow> error + scan_state" where
  "step detector_dict time_shift st line =
     (let key = take 2 line in
      if in_events st then
        if key = ''EN'' then Inr (st\<lparr>in_events := False\<rparr>)
        else
          (case (if key = ''TI'' then
                   (case read_time line time_shift of
                      Inl e \<Rightarrow> Inl e
                    | Inr v \<Rightarrow> Inr (st\<lparr>time_var := Some v\<rparr>))
                 else Inr st) of
             Inl e \<Rightarrow> Inl e
           | Inr st1 \<Rightarrow>
               if key \<noteq> ''HT'' then Inr st1
               else (case read_hit line detector_dict st1 of
                       Inl e \<Rightarrow> Inl e
                     | Inr st2 \<Rightarrow> global_keys line time_shift st2))
      else global_keys line time_shift st)"

fun scan ::
  "(string \<rightharpoonup> string) \<Rightarrow> real \<Rightarrow> string list \<Rightarrow> scan_state \<Rightarrow> error + scan_state" where
  "scan detector_dict time_shift [] st = Inr st"
| "scan detector_dict time_shift (line # rest) st =
     (case step detector_dict time_shift st line of
        Inl e \<Rightarrow> Inl e
      | Inr st' \<Rightarrow> scan detector_dict time_shift rest st')"

definition init_state :: "store \<Rightarrow> scan_state" where
  "init_state h = \<lparr>obj = init_sim, in_events = False, time_var = None, heap = h\<rparr>"

text \<open>The three assertions after the loop, in the order of the source.\<close>

definition check_required :: "scan_state \<Rightarrow> error + (store \<times> sim)" where
  "check_required st =
     (if tstart (obj st) = None then Inl (MissingRequiredField ''TB'')
      else if tstop (obj st) = None then Inl (MissingRequiredField ''TE'')
      else if nthrown (obj st) = None then Inl (MissingRequiredField ''TS'')
      else Inr (heap st, obj st))"

text \<open>
  \<open>CosimaSim.open\<close>, on the text of the file and the store of the hits that exist
  already; it returns the new store and the run.
\<close>

definition open_sim ::
  "store \<Rightarrow> string \<Rightarrow> (string \<rightharpoonup> string) \<Rightarrow> real \<Rightarrow> error + (store \<times> sim)" where
  "open_sim h content detector_dict time_shift =
     (case scan detector_dict time_shift (readlines content) (init_state h) of
        Inl e \<Rightarrow> Inl e
      | Inr st \<Rightarrow> check_required st)"


text \<open>A log given line by line: every line is closed by a newline.\<close>

definition log_of_lines :: "string list \<Rightarrow> string" where
  "log_of_lines ls = concat (map (\<lambda>l. l @ [CHR 0x0A]) ls)"

text \<open>The detector dictionary of the notebook.\<close>

definition detector_dict :: "string \<rightharpoonup> string" where
  "detector_dict =
     [''4.88500,4.88500'' \<mapsto> ''q0'',
      ''-4.88500,4.88500'' \<mapsto> ''q1'',
      ''-4.88500,-4.88500'' \<mapsto> ''q2'',
      ''4.88500,-4.88500'' \<mapsto> ''q3'']"

section \<open>Building the event list\<close>

text \<open>Python's \<open>min(a, b)\<close> and \<open>max(a, b)\<close> of two arguments: the first one wins a tie.\<close>

definition py_min :: "'a::linorder \<Rightarrow> 'a \<Rightarrow> 'a" where
  "py_min a b = (if b < a then b else a)"

definition py_max :: "'a::linorder \<Rightarrow> 'a \<Rightarrow> 'a" where
  "py_max a b = (if a < b then b else a)"

text \<open>
  Modelled from the spec: \<open>numpy.digitize\<close> and the search it runs are not among the
  sources. For an increasing table the result is the position found by the search for
  the rightmost edge not exceeding the value, that is the number of edges \<open>\<le> x\<close>. What
  numpy documents beyond the spec's words is written out: a decreasing table is
  searched in reverse and the result counted from the end, and a table that is neither
  raises \<open>ValueError\<close>.
\<close>

definition searchsorted_right :: "real list \<Rightarrow> real \<Rightarrow> nat" where
  "searchsorted_right a x = length (takeWhile (\<lambda>b. b \<le> x) a)"

definition digitize :: "real \<Rightarrow> real list \<Rightarrow> error + int" where
  "digitize x bins =
     (if sorted bins then Inr (int (searchsorted_right bins x))
      else if sorted (rev bins) then
        Inr (int (length bins) - int (searchsorted_right (rev bins) x))
      else Inl ValueError)"

text \<open>
  The two statements of the loop of \<open>to_TTE\<close> that compute the channel of an energy:
  \<open>np.digitize(...) - 1\<close>, then \<open>min(nchannels-1, max(0, energy_channel))\<close>.
\<close>

definition energy_channel :: "int \<Rightarrow> real list \<Rightarrow> real \<Rightarrow> error + int" where
  "energy_channel nchannels energy_channel_edges e =
     (case digitize e energy_channel_edges of
        Inl err \<Rightarrow> Inl err
      | Inr d \<Rightarrow> Inr (py_min (nchannels - 1) (py_max 0 (d - 1))))"

text \<open>The loop \<open>for hit in self.hits\<close> of \<open>to_TTE\<close>, with its two accumulators.\<close>

fun tte_loop ::
  "store \<Rightarrow> int \<Rightarrow> real list \<Rightarrow> ref list \<Rightarrow> real list \<times> int list
     \<Rightarrow> error + (real list \<times> int list)" where
  "tte_loop h nchannels edges [] (tms, energy_channels) = Inr (tms, energy_channels)"
| "tte_loop h nchannels edges (r # rs) (tms, energy_channels) =
     (case energy_channel nchannels edges (energy (h ! r)) of
        Inl err \<Rightarrow> Inl err
      | Inr c \<Rightarrow>
          tte_loop h nchannels edges rs (tms @ [time (h ! r)], energy_channels @ [c]))"

text \<open>
  Modelled from the spec: \<open>EventList.from_lists\<close> and \<open>TTE.from_data\<close> belong to the
  gbm library, not to the sources. The event stream is the parallel sequences of times
  and channels and the low and high edges of the channels, as they are handed over.
\<close>

record event_list =
  times_list :: "real list"
  pha_list :: "int list"
  chan_lo :: "real list"
  chan_hi :: "real list"

definition to_TTE :: "store \<Rightarrow> sim \<Rightarrow> real list \<Rightarrow> error + event_list" where
  "to_TTE h self energy_channel_edges =
     (let nchannels = int (length energy_channel_edges) - 1 in
      case tte_loop h nchannels energy_channel_edges (hits self) ([], []) of
        Inl err \<Rightarrow> Inl err
      | Inr (tms, energy_channels) \<Rightarrow>
          Inr \<lparr>times_list = tms, pha_list = energy_channels,
               chan_lo = butlast energy_channel_edges,
               chan_hi = drop 1 energy_channel_edges\<rparr>)"

section \<open>Merging two runs\<close>

text \<open>
  The loop \<open>for hit in sim2.hits\<close> of \<open>merge\<close>: the time of the hit object is
  overwritten in the store, and the same object is appended to \<open>self.hits\<close>.
\<close>

fun shift_hits :: "real \<Rightarrow> ref list \<Rightarrow> store \<times> ref list \<Rightarrow> store \<times> ref list" where
  "shift_hits shift [] (h, self_hits) = (h, self_hits)"
| "shift_hits shift (r # rs) (h, self_hits) =
     shift_hits shift rs (h[r := (h ! r)\<lparr>time := time (h ! r) + shift\<rparr>], self_hits @ [r])"

text \<open>
  \<open>CosimaSim.merge\<close>. \<open>np.argsort\<close> is numpy's and is a parameter here: it receives the
  keys that \<open>Hit.__lt__\<close> compares, the times of the hits in the order of \<open>self.hits\<close>,
  and returns the order of the indices. Arithmetic on a field that is still \<open>None\<close>
  raises \<open>TypeError\<close> (the assignments made before the exception are not kept in the
  model). The fields of \<open>sim2\<close> are read only: calling \<open>merge\<close> with the same object
  for \<open>self\<close> and \<open>sim2\<close> is the call with twice the same value.
\<close>

definition merge ::
  "(real list \<Rightarrow> nat list) \<Rightarrow> store \<Rightarrow> sim \<Rightarrow> sim \<Rightarrow> real \<Rightarrow> error + (store \<times> sim)" where
  "merge argsort h self sim2 shift =
     (case (tstart self, tstart sim2, tstop self, tstop sim2, nthrown self, nthrown sim2) of
        (Some b1, Some b2, Some e1, Some e2, Some n1, Some n2) \<Rightarrow>
          (let (h', self_hits) = shift_hits shift (hits sim2) (h, hits self);
               hits_sort = argsort (map (\<lambda>r. time (h' ! r)) self_hits)
           in Inr (h', \<lparr>tstart = Some (py_min b1 (b2 + shift)),
                        tstop = Some (py_max e1 (e2 + shift)),
                        nthrown = Some (n1 + n2),
                        hits = map (\<lambda>n. self_hits ! n) hits_sort\<rparr>))
      | _ \<Rightarrow> Inl TypeError)"

text \<open>
  A run is valid for a store when its three scalar fields are set and its hits are
  objects of the store.
\<close>

definition valid_run :: "store \<Rightarrow> sim \<Rightarrow> bool" where
  "valid_run h r =
     (tstart r \<noteq> None \<and> tstop r \<noteq> None \<and> nthrown r \<noteq> None \<and> (\<forall>x\<in>set (hits r). x < length h))"

section \<open>The order of the indices\<close>

text \<open>
  What \<open>merge\<close> needs from \<open>np.argsort\<close> on the keys \<open>ts\<close>: the result holds every index
  of \<open>ts\<close> once, and the keys taken in that order ascend.
\<close>

definition argsort_ok :: "(real list \<Rightarrow> nat list) \<Rightarrow> real list \<Rightarrow> bool" where
  "argsort_ok argsort ts =
     (sort (argsort ts) = [0..<length ts] \<and> sorted (map (\<lambda>i. ts ! i) (argsort ts)))"

text \<open>
  The order that a stable sort gives to the indices: ascending keys, and equal keys in
  ascending position.
\<close>

definition key_index_less :: "real list \<Rightarrow> nat \<Rightarrow> nat \<Rightarrow> bool" where
  "key_index_less ts i j = (ts ! i < ts ! j \<or> (ts ! i = ts ! j \<and> i < j))"

definition stable_order :: "real list \<Rightarrow> nat list \<Rightarrow> bool" where
  "stable_order ts idx = (sort idx = [0..<length ts] \<and> sorted_wrt (key_index_less ts) idx)"

text \<open>
  A concrete \<open>argsort\<close> for the examples: the sort that numpy runs for the default
  \<open>kind='quicksort'\<close> on an array of objects, an introsort on the array \<open>tosort\<close> of
  indices. \<open>v\<close> holds the keys; the comparison \<open>cmp(a, b) < 0\<close> of two hits is
  \<open>Hit.__lt__\<close>, the order of their times. A range longer than 16 elements is
  partitioned around the median of its first, middle and last element, a shorter one is
  sorted by insertion, and a range reached after more than twice the binary logarithm of
  the length partitions is sorted by heapsort.
\<close>

definition swap :: "nat list \<Rightarrow> nat \<Rightarrow> nat \<Rightarrow> nat list" where
  "swap tosort i j = tosort[i := tosort ! j, j := tosort ! i]"

definition med3 :: "real list \<Rightarrow> nat list \<Rightarrow> nat \<Rightarrow> nat \<Rightarrow> nat \<Rightarrow> nat list" where
  "med3 v tosort pl pm pr =
     (let t1 = (if v ! (tosort ! pm) < v ! (tosort ! pl) then swap tosort pm pl else tosort);
          t2 = (if v ! (t1 ! pr) < v ! (t1 ! pm) then swap t1 pr pm else t1)
      in if v ! (t2 ! pm) < v ! (t2 ! pl) then swap t2 pm pl else t2)"

text \<open>\<open>do ++pi; while (cmp(v[*pi], vp) < 0 && pi < pj)\<close>\<close>

function scan_up :: "real list \<Rightarrow> real \<Rightarrow> nat list \<Rightarrow> nat \<Rightarrow> nat \<Rightarrow> nat" where
  "scan_up v vp tosort p_i p_j =
     (if v ! (tosort ! (p_i + 1)) < vp \<and> p_i + 1 < p_j then scan_up v vp tosort (p_i + 1) p_j
      else p_i + 1)"
  by pat_completeness auto
termination
  by (relation "measure (\<lambda>(v, vp, tosort, p_i, p_j). p_j - p_i)") auto

declare scan_up.simps [simp del]

text \<open>\<open>do --pj; while (cmp(vp, v[*pj]) < 0 && pi < pj)\<close>\<close>

function scan_down :: "real list \<Rightarrow> real \<Rightarrow> nat list \<Rightarrow> nat \<Rightarrow> nat \<Rightarrow> nat" where
  "scan_down v vp tosort p_i p_j =
     (if vp < v ! (tosort ! (p_j - 1)) \<and> p_i < p_j - 1 then scan_down v vp tosort p_i (p_j - 1)
      else p_j - 1)"
  by pat_completeness auto
termination
  by (relation "measure (\<lambda>(v, vp, tosort, p_i, p_j). p_j)") auto

declare scan_down.simps [simp del]

text \<open>The loop \<open>for (;;)\<close> of the partition; it returns the array and the final \<open>pi\<close>.\<close>

function partition_loop ::
  "real list \<Rightarrow> real \<Rightarrow> nat list \<Rightarrow> nat \<Rightarrow> nat \<Rightarrow> nat list \<times> nat" where
  "partition_loop v vp tosort p_i p_j =
     (let p_i' = scan_up v vp tosort p_i p_j;
          p_j' = scan_down v vp tosort p_i' p_j
      in if p_i' \<ge> p_j' then (tosort, p_i')
         else partition_loop v vp (swap tosort p_i' p_j') p_i' p_j')"
  by pat_completeness auto

termination
proof (relation "measure (\<lambda>(v, vp, tosort, p_i, p_j). p_j - p_i)", goal_cases)
  case 1
  show ?case by simp
next
  case (2 v vp tosort p_i p_j x xa)
  have up: "a < scan_up v vp tosort a b" for a b
    by (induction v vp tosort a b rule: scan_up.induct) (subst scan_up.simps, auto)
  have down: "scan_down v vp tosort a b \<le> b - 1" for a b
    by (induction v vp tosort a b rule: scan_down.induct) (subst scan_down.simps, auto)
  from 2 show ?case
    using up [of p_i p_j] down [of "scan_up v vp tosort p_i p_j" p_j] by auto
qed

declare partition_loop.simps [simp del]

text \<open>
  The insertion sort of the range \<open>pl..pr\<close>: the element at \<open>pi\<close> moves to the left
  past the elements that are greater.
\<close>

function insert_shift ::
  "real list \<Rightarrow> real \<Rightarrow> nat \<Rightarrow> nat list \<Rightarrow> nat \<Rightarrow> nat list \<times> nat" where
  "insert_shift v vp pl tosort p_j =
     (if pl < p_j \<and> vp < v ! (tosort ! (p_j - 1))
      then insert_shift v vp pl (tosort[p_j := tosort ! (p_j - 1)]) (p_j - 1)
      else (tosort, p_j))"
  by pat_completeness auto
termination
  by (relation "measure (\<lambda>(v, vp, pl, tosort, p_j). p_j)") auto

declare insert_shift.simps [simp del]

definition insert_one :: "real list \<Rightarrow> nat \<Rightarrow> nat list \<Rightarrow> nat \<Rightarrow> nat list" where
  "insert_one v pl tosort p_i =
     (let vi = tosort ! p_i;
          (t, p_j) = insert_shift v (v ! vi) pl tosort p_i
      in t[p_j := vi])"

function insertion_loop :: "real list \<Rightarrow> nat \<Rightarrow> nat \<Rightarrow> nat list \<Rightarrow> nat \<Rightarrow> nat list" where
  "insertion_loop v pl pr tosort p_i =
     (if p_i \<le> pr then insertion_loop v pl pr (insert_one v pl tosort p_i) (p_i + 1)
      else tosort)"
  by pat_completeness auto
termination
  by (relation "measure (\<lambda>(v, pl, pr, tosort, p_i). pr + 1 - p_i)") auto

declare insertion_loop.simps [simp del]

text \<open>
  The heapsort of the \<open>n\<close> elements from \<open>base\<close> on; the heap is indexed from 1, its
  element \<open>k\<close> being \<open>tosort ! (base + k - 1)\<close>.
\<close>

function sift ::
  "real list \<Rightarrow> nat \<Rightarrow> nat \<Rightarrow> nat \<Rightarrow> nat list \<Rightarrow> nat \<Rightarrow> nat \<Rightarrow> nat list \<times> nat" where
  "sift v base n tmp tosort i j =
     (if 0 < j \<and> j \<le> n then
        let j' = (if j < n \<and> v ! (tosort ! (base + j - 1)) < v ! (tosort ! (base + j))
                  then j + 1 else j)
        in if v ! tmp < v ! (tosort ! (base + j' - 1))
           then sift v base n tmp (tosort[base + i - 1 := tosort ! (base + j' - 1)]) j' (j' + j')
           else (tosort, i)
      else (tosort, i))"
  by pat_completeness auto
termination
  by (relation "measure (\<lambda>(v, base, n, tmp, tosort, i, j). n + 1 - j)") auto

declare sift.simps [simp del]

definition sift_down :: "real list \<Rightarrow> nat \<Rightarrow> nat \<Rightarrow> nat list \<Rightarrow> nat \<Rightarrow> nat list" where
  "sift_down v base n tosort l =
     (let tmp = tosort ! (base + l - 1);
          (t, i) = sift v base n tmp tosort l (l + l)
      in t[base + i - 1 := tmp])"

fun heapify :: "real list \<Rightarrow> nat \<Rightarrow> nat \<Rightarrow> nat list \<Rightarrow> nat \<Rightarrow> nat list" where
  "heapify v base n tosort 0 = tosort"
| "heapify v base n tosort (Suc l) = heapify v base n (sift_down v base n tosort (Suc l)) l"

fun heap_extract :: "real list \<Rightarrow> nat \<Rightarrow> nat list \<Rightarrow> nat \<Rightarrow> nat list" where
  "heap_extract v base tosort 0 = tosort"
| "heap_extract v base tosort (Suc m) =
     (if 1 < Suc m then
        let tmp = tosort ! (base + m);
            t1 = tosort[base + m := tosort ! base];
            (t2, i) = sift v base m tmp t1 1 2
        in heap_extract v base (t2[base + i - 1 := tmp]) m
      else tosort)"

definition aheapsort :: "real list \<Rightarrow> nat list \<Rightarrow> nat \<Rightarrow> nat \<Rightarrow> nat list" where
  "aheapsort v tosort base n = heap_extract v base (heapify v base n tosort (n div 2)) n"

text \<open>
  The partitioning of the range \<open>pl..pr\<close>. The smaller part is continued at once, the
  larger one later, both with the depth count reduced by one; the larger one is
  heapsorted if the count has fallen below zero by then.
\<close>

function aquicksort_range ::
  "real list \<Rightarrow> int \<Rightarrow> nat \<Rightarrow> nat \<Rightarrow> nat list \<Rightarrow> nat list" where
  "aquicksort_range v cdepth pl pr tosort =
     (if 15 < pr - pl then
        let pm = pl + (pr - pl) div 2;
            t1 = med3 v tosort pl pm pr;
            vp = v ! (t1 ! pm);
            t2 = swap t1 pm (pr - 1);
            p_i = snd (partition_loop v vp t2 pl (pr - 1));
            t3 = fst (partition_loop v vp t2 pl (pr - 1));
            t4 = swap t3 p_i (pr - 1);
            cd = cdepth - 1
        in if p_i - pl < pr - p_i then
             let t5 = aquicksort_range v cd pl (p_i - 1) t4
             in if cd < 0 then aheapsort v t5 (p_i + 1) (pr - p_i)
                else aquicksort_range v cd (p_i + 1) pr t5
           else
             let t5 = aquicksort_range v cd (p_i + 1) pr t4
             in if cd < 0 then aheapsort v t5 pl (p_i - pl)
                else aquicksort_range v cd pl (p_i - 1) t5
      else insertion_loop v pl pr tosort (pl + 1))"
  by pat_completeness auto
termination
proof -
  have up: "scan_up w vp t a b \<le> max (a + 1) b \<and> a < scan_up w vp t a b" for w vp t a b
    by (induction w vp t a b rule: scan_up.induct) (subst (1 2) scan_up.simps, auto)
  have down: "scan_down w vp t a b \<le> b - 1" for w vp t a b
    by (induction w vp t a b rule: scan_down.induct) (subst scan_down.simps, auto)
  have part: "snd (partition_loop w vp t a b) \<le> max (a + 1) b
              \<and> a < snd (partition_loop w vp t a b)" for w vp t a b
  proof (induction w vp t a b rule: partition_loop.induct)
    case (1 w vp t a b)
    let ?i = "scan_up w vp t a b"
    let ?j = "scan_down w vp t ?i b"
    show ?case
    proof (cases "?j \<le> ?i")
      case True
      then show ?thesis
        using up [of w vp t a b] by (subst (1 2) partition_loop.simps) (simp add: Let_def)
    next
      case False
      with "1.IH" [OF refl refl]
      have "snd (partition_loop w vp (swap t ?i ?j) ?i ?j) \<le> max (?i + 1) ?j
            \<and> ?i < snd (partition_loop w vp (swap t ?i ?j) ?i ?j)"
        by simp
      moreover have "partition_loop w vp t a b = partition_loop w vp (swap t ?i ?j) ?i ?j"
        using False by (subst partition_loop.simps) (simp add: Let_def)
      ultimately show ?thesis
        using False down [of w vp t ?i b] up [of w vp t a b] by auto
    qed
  qed
  show ?thesis
  proof (relation "measure (\<lambda>(v, cdepth, pl, pr, tosort). pr - pl)", goal_cases)
    case 1
    show ?case by simp
  next
    case (2 v cdepth pl pr tosort pm t1 vp t2 p_i t3 t4 cd)
    note r = this(1) and p = this(6)
    have "pl < p_i \<and> p_i < pr"
      unfolding p using r part [of v vp t2 pl "pr - 1"] by auto
    then show ?case by auto
  next
    case (3 v cdepth pl pr tosort pm t1 vp t2 p_i t3 t4 cd)
    note r = this(1) and p = this(6)
    have "pl < p_i \<and> p_i < pr"
      unfolding p using r part [of v vp t2 pl "pr - 1"] by auto
    then show ?case by auto
  next
    case (4 v cdepth pl pr tosort pm t1 vp t2 p_i t3 t4 cd)
    note r = this(1) and p = this(6)
    have "pl < p_i \<and> p_i < pr"
      unfolding p using r part [of v vp t2 pl "pr - 1"] by auto
    then show ?case by auto
  next
    case (5 v cdepth pl pr tosort pm t1 vp t2 p_i t3 t4 cd)
    note r = this(1) and p = this(6)
    have "pl < p_i \<and> p_i < pr"
      unfolding p using r part [of v vp t2 pl "pr - 1"] by auto
    then show ?case by auto
  qed
qed

declare aquicksort_range.simps [simp del]

text \<open>\<open>npy_get_msb\<close>: the number of halvings that leave a positive number.\<close>

fun npy_get_msb :: "nat \<Rightarrow> nat" where
  "npy_get_msb n = (if n < 2 then 0 else 1 + npy_get_msb (n div 2))"

declare npy_get_msb.simps [simp del]

text \<open>
  \<open>np.argsort\<close> of the keys \<open>v\<close>: the indices \<open>0..n-1\<close>, sorted in place with a depth
  count of twice \<open>npy_get_msb n\<close>.
\<close>

definition np_argsort :: "real list \<Rightarrow> nat list" where
  "np_argsort v =
     aquicksort_range v (2 * int (npy_get_msb (length v))) 0 (length v - 1) [0..<length v]"

section \<open>Facts about the scan\<close>


lemma scan_append:
  "scan dd ts (pre @ post) st =
     (case scan dd ts pre st of Inl e \<Rightarrow> Inl e | Inr st' \<Rightarrow> scan dd ts post st')"
  by (induction pre arbitrary: st) (auto split: sum.splits)

lemma global_keys_HT: "take 2 line = ''HT'' \<Longrightarrow> global_keys line ts st = Inr st"
  by (simp add: global_keys_def)

lemma step_skip_inside:
  "in_events st \<Longrightarrow> take 2 line \<noteq> ''EN'' \<Longrightarrow> take 2 line \<noteq> ''TI'' \<Longrightarrow> take 2 line \<noteq> ''HT''
   \<Longrightarrow> step dd ts st line = Inr st"
  by (simp add: step_def)

lemma step_outside: "\<not> in_events st \<Longrightarrow> step dd ts st line = global_keys line ts st"
  by (simp add: step_def)

lemma index_MRF: "index xs i \<noteq> Inl (MissingRequiredField k)"
  by (simp add: index_def)

lemma py_float_MRF: "py_float s \<noteq> Inl (MissingRequiredField k)"
  by (simp add: py_float_def Let_def split: prod.splits)

lemma py_int_MRF: "py_int s \<noteq> Inl (MissingRequiredField k)"
  by (simp add: py_int_def Let_def split: prod.splits)

lemma read_time_MRF: "read_time line ts \<noteq> Inl (MissingRequiredField k)"
  by (auto simp: read_time_def second_token_def index_MRF py_float_MRF split: sum.splits)

lemma read_count_MRF: "read_count line \<noteq> Inl (MissingRequiredField k)"
  by (auto simp: read_count_def second_token_def index_MRF py_int_MRF split: sum.splits)

lemma global_keys_MRF: "global_keys line ts st \<noteq> Inl (MissingRequiredField k)"
  by (auto simp: global_keys_def Let_def read_time_MRF read_count_MRF split: sum.splits)

lemma read_hit_MRF: "read_hit line dd st \<noteq> Inl (MissingRequiredField k)"
  by (auto simp: read_hit_def Let_def py_float_MRF split: sum.splits option.splits)

lemma step_MRF: "step dd ts st line \<noteq> Inl (MissingRequiredField k)"
  by (auto simp: step_def Let_def read_time_MRF read_hit_MRF global_keys_MRF split: sum.splits)

lemma scan_MRF: "scan dd ts ls st \<noteq> Inl (MissingRequiredField k)"
  by (induction ls arbitrary: st) (auto simp: step_MRF split: sum.splits)

lemma read_hit_obj:
  "read_hit line dd st = Inr st' \<Longrightarrow>
     tstart (obj st') = tstart (obj st) \<and> tstop (obj st') = tstop (obj st) \<and>
     nthrown (obj st') = nthrown (obj st) \<and> in_events st' = in_events st \<and>
     time_var st' = time_var st"
  by (auto simp: read_hit_def Let_def split: if_splits sum.splits option.splits)

lemma step_time_var:
  "step dd ts st line = Inr st' \<Longrightarrow> \<not> (in_events st \<and> take 2 line = ''TI'') \<Longrightarrow>
     time_var st' = time_var st"
  by (auto simp: step_def global_keys_def Let_def dest!: read_hit_obj split: if_splits sum.splits)

lemma step_nthrown:
  "step dd ts st line = Inr st' \<Longrightarrow> take 2 line \<noteq> ''TS'' \<Longrightarrow>
     nthrown (obj st') = nthrown (obj st)"
  by (auto simp: step_def global_keys_def Let_def dest!: read_hit_obj split: if_splits sum.splits)

lemma scan_nthrown:
  "scan dd ts ls st = Inr st' \<Longrightarrow> \<forall>l\<in>set ls. take 2 l \<noteq> ''TS'' \<Longrightarrow>
     nthrown (obj st') = nthrown (obj st)"
  by (induction ls arbitrary: st) (auto split: sum.splits dest: step_nthrown)




lemma step_HT:
  "in_events st \<Longrightarrow> take 2 line = ''HT'' \<Longrightarrow> step dd ts st line = read_hit line dd st"
  by (auto simp: step_def global_keys_HT split: sum.splits)

lemma step_TI:
  "in_events st \<Longrightarrow> take 2 line = ''TI'' \<Longrightarrow>
     step dd ts st line =
       (case read_time line ts of Inl e \<Rightarrow> Inl e | Inr v \<Rightarrow> Inr (st\<lparr>time_var := Some v\<rparr>))"
  by (auto simp: step_def split: sum.splits)

lemma read_hit_Inr:
  "read_hit line dd st = Inr st' \<Longrightarrow>
     \<exists>t d v. time_var st = Some t \<and>
       st' = st\<lparr>obj := (obj st)\<lparr>hits := hits (obj st) @ [length (heap st)]\<rparr>,
                heap := heap st @ [\<lparr>time = t, detector = d, energy = v\<rparr>]\<rparr>"
  by (auto simp: read_hit_def Let_def split: if_splits sum.splits option.splits)

lemma read_hit_unbound:
  "time_var st = None \<Longrightarrow> \<exists>e. read_hit line dd st = Inl e"
  by (auto simp: read_hit_def Let_def split: if_splits sum.splits option.splits)

lemma scan_time_var:
  "scan dd ts ls st = Inr st' \<Longrightarrow> \<forall>l\<in>set ls. take 2 l \<noteq> ''TI'' \<Longrightarrow>
     time_var st' = time_var st"
  by (induction ls arbitrary: st) (auto split: sum.splits dest: step_time_var)

section \<open>Facts about the event list\<close>

lemma py_min_eq: "py_min a b = min a b"
  by (auto simp: py_min_def min_def)

lemma py_max_eq: "py_max a b = max a b"
  by (auto simp: py_max_def max_def)

lemma searchsorted_right_le: "searchsorted_right a x \<le> length a"
  by (simp add: searchsorted_right_def length_takeWhile_le)

lemma searchsorted_right_iff:
  assumes "sorted a"
  shows "i < searchsorted_right a x \<longleftrightarrow> i < length a \<and> a ! i \<le> x"
proof
  assume l: "i < searchsorted_right a x"
  then have "takeWhile (\<lambda>b. b \<le> x) a ! i \<in> set (takeWhile (\<lambda>b. b \<le> x) a)"
    by (simp add: searchsorted_right_def)
  then have "takeWhile (\<lambda>b. b \<le> x) a ! i \<le> x"
    by (auto dest: set_takeWhileD)
  moreover have "takeWhile (\<lambda>b. b \<le> x) a ! i = a ! i"
    using l by (simp add: searchsorted_right_def takeWhile_nth)
  ultimately show "i < length a \<and> a ! i \<le> x"
    using l searchsorted_right_le [of a x] by simp
next
  assume r: "i < length a \<and> a ! i \<le> x"
  show "i < searchsorted_right a x"
  proof (rule ccontr)
    assume "\<not> i < searchsorted_right a x"
    then have ki: "searchsorted_right a x \<le> i" by simp
    with r have kl: "length (takeWhile (\<lambda>b. b \<le> x) a) < length a"
      by (simp add: searchsorted_right_def)
    from nth_length_takeWhile [OF kl] have "x < a ! searchsorted_right a x"
      by (simp add: searchsorted_right_def)
    moreover have "a ! searchsorted_right a x \<le> a ! i"
      using assms ki r by (simp add: sorted_iff_nth_mono)
    ultimately show False using r by simp
  qed
qed

lemma digitize_sorted: "sorted bins \<Longrightarrow> digitize x bins = Inr (int (searchsorted_right bins x))"
  by (simp add: digitize_def)

lemma digitize_Inr_iff: "(\<exists>d. digitize x bins = Inr d) \<longleftrightarrow> sorted bins \<or> sorted (rev bins)"
  by (simp add: digitize_def)

lemma energy_channel_Inr_iff:
  "(\<exists>c. energy_channel n edges e = Inr c) \<longleftrightarrow> sorted edges \<or> sorted (rev edges)"
  using digitize_Inr_iff [of e edges]
  by (auto simp: energy_channel_def split: sum.splits)

lemma tte_loop_Inr:
  "tte_loop h n edges rs (tms, cs) = Inr (tms', cs') \<Longrightarrow>
     tms' = tms @ map (\<lambda>r. time (h ! r)) rs \<and>
     (\<exists>cs2. cs' = cs @ cs2 \<and>
        map (\<lambda>r. energy_channel n edges (energy (h ! r))) rs = map Inr cs2)"
proof (induction rs arbitrary: tms cs)
  case Nil
  then show ?case by simp
next
  case (Cons r rs)
  from Cons.prems obtain c where c: "energy_channel n edges (energy (h ! r)) = Inr c"
    and rest: "tte_loop h n edges rs (tms @ [time (h ! r)], cs @ [c]) = Inr (tms', cs')"
    by (auto split: sum.splits)
  from Cons.IH [OF rest] obtain cs2 where
    "tms' = (tms @ [time (h ! r)]) @ map (\<lambda>r. time (h ! r)) rs"
    "cs' = (cs @ [c]) @ cs2"
    "map (\<lambda>r. energy_channel n edges (energy (h ! r))) rs = map Inr cs2"
    by blast
  then have "tms' = tms @ map (\<lambda>r. time (h ! r)) (r # rs) \<and> cs' = cs @ (c # cs2) \<and>
     map (\<lambda>r. energy_channel n edges (energy (h ! r))) (r # rs) = map Inr (c # cs2)"
    using c by simp
  then show ?case by blast
qed

lemma tte_loop_Inr_iff:
  "(\<exists>res. tte_loop h n edges rs acc = Inr res) \<longleftrightarrow> rs = [] \<or> sorted edges \<or> sorted (rev edges)"
proof (induction rs arbitrary: acc)
  case Nil
  then show ?case by (cases acc) simp
next
  case (Cons r rs)
  obtain tms cs where acc: "acc = (tms, cs)" by (cases acc)
  show ?case
  proof (cases "energy_channel n edges (energy (h ! r))")
    case (Inl err)
    with energy_channel_Inr_iff [of n edges "energy (h ! r)"] show ?thesis
      by (simp add: acc)
  next
    case (Inr c)
    with energy_channel_Inr_iff [of n edges "energy (h ! r)"]
    have m: "sorted edges \<or> sorted (rev edges)" by blast
    with Cons.IH [of "(tms @ [time (h ! r)], cs @ [c])"] Inr show ?thesis
      by (simp add: acc)
  qed
qed


lemma to_TTE_Inr:
  assumes "to_TTE h run edges = Inr ev"
  shows "times_list ev = map (\<lambda>r. time (h ! r)) (hits run)"
    and "map (\<lambda>r. energy_channel (int (length edges) - 1) edges (energy (h ! r))) (hits run)
          = map Inr (pha_list ev)"
    and "chan_lo ev = butlast edges" and "chan_hi ev = drop 1 edges"
proof -
  from assms obtain tms cs where
    l: "tte_loop h (int (length edges) - 1) edges (hits run) ([], []) = Inr (tms, cs)"
    and ev: "ev = \<lparr>times_list = tms, pha_list = cs, chan_lo = butlast edges,
                   chan_hi = drop 1 edges\<rparr>"
    by (auto simp: to_TTE_def Let_def split: sum.splits prod.splits)
  from tte_loop_Inr [OF l] ev
  show "times_list ev = map (\<lambda>r. time (h ! r)) (hits run)"
    and "map (\<lambda>r. energy_channel (int (length edges) - 1) edges (energy (h ! r))) (hits run)
          = map Inr (pha_list ev)"
    by auto
  from ev show "chan_lo ev = butlast edges" and "chan_hi ev = drop 1 edges"
    by simp_all
qed

lemma to_TTE_Inr_iff:
  "(\<exists>ev. to_TTE h run edges = Inr ev) \<longleftrightarrow> hits run = [] \<or> sorted edges \<or> sorted (rev edges)"
  using tte_loop_Inr_iff [of h "int (length edges) - 1" edges "hits run" "([], [])"]
  by (auto simp: to_TTE_def Let_def split: sum.splits prod.splits)

lemma energy_channel_range:
  assumes "sorted edges" and "length edges = Suc N" and "1 \<le> N"
  shows "energy_channel (int (length edges) - 1) edges e
           = Inr (py_min (int N - 1) (py_max 0 (int (searchsorted_right edges e) - 1)))"
    and "0 \<le> py_min (int N - 1) (py_max 0 (int (searchsorted_right edges e) - 1))"
    and "py_min (int N - 1) (py_max 0 (int (searchsorted_right edges e) - 1)) \<le> int N - 1"
  using assms by (simp_all add: energy_channel_def digitize_sorted py_min_eq py_max_eq)

section \<open>Facts about \<open>merge\<close>\<close>

lemma shift_hits_snd: "snd (shift_hits s rs (h, hs)) = hs @ rs"
  by (induction rs arbitrary: h hs) simp_all

lemma shift_hits_fst:
  "fst (shift_hits s rs (h, hs)) =
     map (\<lambda>x. (h ! x)\<lparr>time := time (h ! x) + s * real (count_list rs x)\<rparr>) [0..<length h]"
proof (induction rs arbitrary: h hs)
  case Nil
  show ?case by (simp add: map_nth)
next
  case (Cons r rs)
  let ?h1 = "h[r := (h ! r)\<lparr>time := time (h ! r) + s\<rparr>]"
  have "fst (shift_hits s (r # rs) (h, hs)) = fst (shift_hits s rs (?h1, hs @ [r]))"
    by simp
  also have "\<dots> = map (\<lambda>x. (?h1 ! x)\<lparr>time := time (?h1 ! x) + s * real (count_list rs x)\<rparr>)
                      [0..<length ?h1]"
    by (rule Cons.IH)
  also have "\<dots> = map (\<lambda>x. (h ! x)\<lparr>time := time (h ! x) + s * real (count_list (r # rs) x)\<rparr>)
                      [0..<length h]"
    by (auto simp: nth_list_update algebra_simps)
  finally show ?case .
qed

lemma shift_hits_eq:
  "shift_hits s rs (h, hs) =
     (map (\<lambda>x. (h ! x)\<lparr>time := time (h ! x) + s * real (count_list rs x)\<rparr>) [0..<length h],
      hs @ rs)"
  using shift_hits_fst [of s rs h hs] shift_hits_snd [of s rs h hs]
  by (cases "shift_hits s rs (h, hs)") simp

lemma merge_Inr:
  assumes "tstart a = Some b1" "tstart b = Some b2" "tstop a = Some e1" "tstop b = Some e2"
    "nthrown a = Some n1" "nthrown b = Some n2"
  shows "merge argsort h a b s =
     (let h' = map (\<lambda>x. (h ! x)\<lparr>time := time (h ! x) + s * real (count_list (hits b) x)\<rparr>)
                 [0..<length h];
          hs = hits a @ hits b
      in Inr (h', \<lparr>tstart = Some (py_min b1 (b2 + s)), tstop = Some (py_max e1 (e2 + s)),
                   nthrown = Some (n1 + n2),
                   hits = map (\<lambda>n. hs ! n) (argsort (map (\<lambda>r. time (h' ! r)) hs))\<rparr>))"
  using assms by (simp add: merge_def shift_hits_eq Let_def)

lemma merge_TypeError:
  "tstart a = None \<or> tstart b = None \<or> tstop a = None \<or> tstop b = None
     \<or> nthrown a = None \<or> nthrown b = None \<Longrightarrow> merge argsort h a b s = Inl TypeError"
  by (auto simp: merge_def split: option.splits)

lemma count_list_distinct:
  "distinct xs \<Longrightarrow> count_list xs x = (if x \<in> set xs then 1 else 0)"
  by (induction xs) auto

lemma perm_indices:
  assumes "sort idx = [0..<n]"
  shows "mset idx = mset [0..<n]" and "set idx = {0..<n}" and "length idx = n"
proof -
  from assms have "mset (sort idx) = mset [0..<n]" by simp
  then show m: "mset idx = mset [0..<n]" by simp
  from m have "set_mset (mset idx) = set_mset (mset [0..<n])" by simp
  then show "set idx = {0..<n}" by simp
  from m have "size (mset idx) = size (mset [0..<n])" by simp
  then show "length idx = n" by simp
qed

lemma mset_map_indices:
  assumes "sort idx = [0..<length hs]"
  shows "mset (map (\<lambda>n. hs ! n) idx) = mset hs"
proof -
  have "mset (map (\<lambda>n. hs ! n) idx) = image_mset (\<lambda>n. hs ! n) (mset idx)" by simp
  also have "\<dots> = image_mset (\<lambda>n. hs ! n) (mset [0..<length hs])"
    using perm_indices(1) [OF assms] by simp
  also have "\<dots> = mset (map (\<lambda>n. hs ! n) [0..<length hs])" by simp
  also have "\<dots> = mset hs" by (simp add: map_nth)
  finally show ?thesis .
qed

lemma mset_map_cong_mset: "mset xs = mset ys \<Longrightarrow> mset (map f xs) = mset (map f ys)"
  by (metis mset_map)

lemma merge_result:
  assumes "tstart a = Some b1" "tstart b = Some b2" "tstop a = Some e1" "tstop b = Some e2"
    "nthrown a = Some n1" "nthrown b = Some n2"
  obtains h' idx where
    "length h' = length h"
    "\<And>x. x < length h \<Longrightarrow>
       h' ! x = (h ! x)\<lparr>time := time (h ! x) + s * real (count_list (hits b) x)\<rparr>"
    "idx = argsort (map (\<lambda>r. time (h' ! r)) (hits a @ hits b))"
    "merge argsort h a b s =
       Inr (h', \<lparr>tstart = Some (py_min b1 (b2 + s)), tstop = Some (py_max e1 (e2 + s)),
                 nthrown = Some (n1 + n2), hits = map (\<lambda>n. (hits a @ hits b) ! n) idx\<rparr>)"
proof -
  define h' where
    "h' = map (\<lambda>x. (h ! x)\<lparr>time := time (h ! x) + s * real (count_list (hits b) x)\<rparr>)
            [0..<length h]"
  define idx where "idx = argsort (map (\<lambda>r. time (h' ! r)) (hits a @ hits b))"
  have "length h' = length h" by (simp add: h'_def)
  moreover have "h' ! x = (h ! x)\<lparr>time := time (h ! x) + s * real (count_list (hits b) x)\<rparr>"
    if "x < length h" for x
    using that by (simp add: h'_def)
  moreover have "merge argsort h a b s =
       Inr (h', \<lparr>tstart = Some (py_min b1 (b2 + s)), tstop = Some (py_max e1 (e2 + s)),
                 nthrown = Some (n1 + n2), hits = map (\<lambda>n. (hits a @ hits b) ! n) idx\<rparr>)"
    using merge_Inr [OF assms, of argsort h s] by (simp add: Let_def h'_def idx_def)
  ultimately show ?thesis using that idx_def by blast
qed

section \<open>Facts about the insertion sort\<close>


lemma insert_shift_result:
  assumes "\<forall>g\<in>set G. vp < v ! g" and "L = [] \<or> \<not> vp < v ! last L"
  shows "(case insert_shift v vp 0 (L @ G @ y # R) (length L + length G) of
            (t, j) \<Rightarrow> t[j := x]) = L @ x # G @ R"
  using assms(1)
proof (induction G arbitrary: y R rule: rev_induct)
  case Nil
  have "insert_shift v vp 0 (L @ y # R) (length L) = (L @ y # R, length L)"
    using assms(2) by (subst insert_shift.simps) (auto simp: nth_append last_conv_nth)
  then show ?case by simp
next
  case (snoc g G)
  have "insert_shift v vp 0 (L @ (G @ [g]) @ y # R) (length L + length (G @ [g]))
        = insert_shift v vp 0 (L @ G @ g # g # R) (length L + length G)"
    using snoc.prems
    by (subst insert_shift.simps) (simp add: nth_append list_update_append)
  moreover have "(case insert_shift v vp 0 (L @ G @ g # g # R) (length L + length G) of
            (t, j) \<Rightarrow> t[j := x]) = L @ x # G @ g # R"
    using snoc.IH [of g "g # R"] snoc.prems by simp
  ultimately show ?case by simp
qed

text \<open>The part of a sorted prefix that an element passes, and the part it stays behind.\<close>

lemma split_greater:
  obtains L G where "P = L @ G" and "\<forall>g\<in>set G. (vp::real) < v ! g"
    and "L = [] \<or> \<not> vp < v ! last L"
proof -
  let ?G = "rev (takeWhile (\<lambda>g. vp < v ! g) (rev P))"
  let ?L = "rev (dropWhile (\<lambda>g. vp < v ! g) (rev P))"
  have 1: "P = ?L @ ?G"
    by (metis rev_append rev_rev_ident takeWhile_dropWhile_id)
  have 2: "\<forall>g\<in>set ?G. vp < v ! g"
    by (auto dest: set_takeWhileD)
  have 3: "?L = [] \<or> \<not> vp < v ! last ?L"
  proof (cases "dropWhile (\<lambda>g. vp < v ! g) (rev P)")
    case Nil
    then show ?thesis by simp
  next
    case (Cons z zs)
    then have "\<not> vp < v ! z"
      using hd_dropWhile [of "\<lambda>g. vp < v ! g" "rev P"] by auto
    moreover have "last ?L = z" using Cons by simp
    ultimately show ?thesis by simp
  qed
  from 1 2 3 that show ?thesis by blast
qed

lemma insert_one_result:
  assumes "\<forall>g\<in>set G. v ! x < v ! g" and "L = [] \<or> \<not> v ! x < v ! last L"
  shows "insert_one v 0 (L @ G @ x # R) (length L + length G) = L @ x # G @ R"
proof -
  have "(L @ G @ x # R) ! (length L + length G) = x"
    by (simp add: nth_append)
  then show ?thesis
    using insert_shift_result [OF assms, where y = x and R = R and x = x]
    by (simp add: insert_one_def Let_def split: prod.splits)
qed



lemma sorted_wrt_last:
  assumes "sorted_wrt R L" and "l \<in> set L"
  shows "l = last L \<or> R l (last L)"
proof (cases L rule: rev_cases)
  case Nil
  with assms show ?thesis by simp
next
  case (snoc ys y)
  with assms show ?thesis by (auto simp: sorted_wrt_append)
qed

lemma insertion_loop_stable:
  assumes "length P = p_i" and "set P = {0..<p_i}" and "sorted_wrt (key_index_less v) P"
    and "p_i \<le> n" and "0 < p_i"
  shows "length (insertion_loop v 0 (n - 1) (P @ [p_i..<n]) p_i) = n
       \<and> set (insertion_loop v 0 (n - 1) (P @ [p_i..<n]) p_i) = {0..<n}
       \<and> sorted_wrt (key_index_less v) (insertion_loop v 0 (n - 1) (P @ [p_i..<n]) p_i)"
  using assms
proof (induction "n - p_i" arbitrary: P p_i)
  case 0
  then have "p_i = n" by simp
  then have "insertion_loop v 0 (n - 1) (P @ [p_i..<n]) p_i = P"
    using "0.prems"(5) by (subst insertion_loop.simps) auto
  with 0 show ?case by simp
next
  case (Suc k)
  then have lt: "p_i < n" by simp
  let ?R = "[Suc p_i..<n]"
  obtain L G where P: "P = L @ G" and G: "\<forall>g\<in>set G. v ! p_i < v ! g"
    and L: "L = [] \<or> \<not> v ! p_i < v ! last L"
    by (rule split_greater [of P "v ! p_i" v])
  have len: "length L + length G = p_i"
    using Suc.prems(1) P by simp
  have "insert_one v 0 (L @ G @ p_i # ?R) (length L + length G) = L @ p_i # G @ ?R"
    by (rule insert_one_result [OF G L])
  then have one: "insert_one v 0 (P @ [p_i..<n]) p_i = (L @ p_i # G) @ ?R"
    using lt len P by (simp add: upt_conv_Cons)
  let ?P' = "L @ p_i # G"
  have 1: "length ?P' = Suc p_i" using len by simp
  have 2: "set ?P' = {0..<Suc p_i}"
    using Suc.prems(2) P by auto
  have inL: "key_index_less v l p_i" if "l \<in> set L" for l
  proof -
    from that have ne: "L \<noteq> []" by auto
    with L have a: "v ! last L \<le> v ! p_i" by simp
    from Suc.prems(3) P have "sorted_wrt (key_index_less v) L"
      by (simp add: sorted_wrt_append)
    from sorted_wrt_last [OF this that] have "v ! l \<le> v ! last L"
      by (auto simp: key_index_less_def)
    moreover from that Suc.prems(2) P have "l < p_i" by auto
    ultimately show ?thesis using a by (auto simp: key_index_less_def)
  qed
  have 3: "sorted_wrt (key_index_less v) ?P'"
    using Suc.prems(3) P G inL by (auto simp: sorted_wrt_append key_index_less_def)
  have 4: "Suc p_i \<le> n" using lt by simp
  have 5: "k = n - Suc p_i" using Suc.hyps(2) by simp
  from Suc.hyps(1) [OF 5 1 2 3 4]
  have "length (insertion_loop v 0 (n - 1) (?P' @ ?R) (Suc p_i)) = n
       \<and> set (insertion_loop v 0 (n - 1) (?P' @ ?R) (Suc p_i)) = {0..<n}
       \<and> sorted_wrt (key_index_less v) (insertion_loop v 0 (n - 1) (?P' @ ?R) (Suc p_i))"
    by simp
  moreover have "insertion_loop v 0 (n - 1) (P @ [p_i..<n]) p_i
                 = insertion_loop v 0 (n - 1) (?P' @ ?R) (Suc p_i)"
  proof -
    from lt have "p_i \<le> n - 1" by simp
    then show ?thesis
      by (subst insertion_loop.simps) (simp only: if_True one Suc_eq_plus1)
  qed
  ultimately show ?case by simp
qed

lemma sort_indices:
  assumes "length xs = n" and "set xs = {0..<n}"
  shows "sort xs = [0..<n]"
proof -
  from assms have "card (set xs) = length xs" by simp
  then have d: "distinct xs" by (simp add: card_distinct)
  have "sort xs = sorted_list_of_set (set xs)"
    using d by (simp add: sorted_list_of_set_sort_remdups distinct_remdups_id)
  then show ?thesis using assms(2) by simp
qed

lemma np_argsort_short:
  assumes "length v \<le> 16"
  shows "stable_order v (np_argsort v)"
proof (cases "length v = 0")
  case True
  then have "np_argsort v = []"
    by (simp add: np_argsort_def aquicksort_range.simps insertion_loop.simps)
  with True show ?thesis by (simp add: stable_order_def)
next
  case False
  let ?n = "length v"
  have c: "\<not> 15 < ?n - 1 - 0" using assms by simp
  have "aquicksort_range v cd 0 (?n - 1) t = insertion_loop v 0 (?n - 1) t (0 + 1)" for cd t
    by (subst aquicksort_range.simps) (simp only: c if_False)
  moreover have "[0..<?n] = [0] @ [1..<?n]"
    using False by (simp add: upt_conv_Cons)
  ultimately have eq: "np_argsort v = insertion_loop v 0 (?n - 1) ([0] @ [1..<?n]) 1"
    by (simp add: np_argsort_def)
  have "length (insertion_loop v 0 (?n - 1) ([0] @ [1..<?n]) 1) = ?n
       \<and> set (insertion_loop v 0 (?n - 1) ([0] @ [1..<?n]) 1) = {0..<?n}
       \<and> sorted_wrt (key_index_less v) (insertion_loop v 0 (?n - 1) ([0] @ [1..<?n]) 1)"
  proof (rule insertion_loop_stable)
    show "length [0::nat] = 1" by simp
    show "set [0::nat] = {0..<1}" by auto
    show "sorted_wrt (key_index_less v) [0]" by simp
    show "1 \<le> ?n" using False by (cases v) auto
    show "(0::nat) < 1" by simp
  qed
  with eq sort_indices [of "np_argsort v" ?n] show ?thesis
    by (simp add: stable_order_def)
qed

section \<open>Claims about \<open>open\<close>\<close>

text \<open>
  C9. The log of scenario A (\<open>TB 0\<close>, \<open>TE 10\<close>, \<open>TS 100\<close>, and one event block
  \<open>SE\<close>, \<open>TI 1.5\<close>, \<open>HT ;4.88500;4.88500;;50.0\<close>, \<open>EN\<close>), read with the notebook's
  detector dictionary and no time shift into an empty store, gives a run with
  \<open>tstart = 0\<close>, \<open>tstop = 10\<close>, \<open>nthrown = 100\<close> and exactly one hit, with detector
  \<open>q0\<close>, time 1.5 and energy 50; the coordinates and the energy are the 2nd, 3rd and
  5th of the semicolon-delimited fields of the \<open>HT\<close> line.
\<close>

theorem open_scenario_A:
  "open_sim [] (log_of_lines [''TB 0'', ''TE 10'', ''TS 100'', ''SE'', ''TI 1.5'',
       ''HT ;4.88500;4.88500;;50.0'', ''EN'']) detector_dict 0
     = Inr ([\<lparr>time = 1.5, detector = ''q0'', energy = 50\<rparr>],
            \<lparr>tstart = Some 0, tstop = Some 10, nthrown = Some 100, hits = [0]\<rparr>)
   \<and> map strip (py_split_sep (CHR '';'') (''HT ;4.88500;4.88500;;50.0'' @ [CHR 0x0A]))
       = [''HT'', ''4.88500'', ''4.88500'', '''', ''50.0'']"
  by code_simp

text \<open>
  C1 fails on the code. The docstring of \<open>open\<close> warns that files with the keys \<open>NF\<close>
  and \<open>IN\<close> are not supported, and the loop means to raise an error for them. But inside
  an event block the test is never reached (every key other than \<open>HT\<close> takes
  \<open>continue\<close> first), so \<open>open\<close> returns a run; and outside an event block the statement
  names the undefined \<open>InputError\<close>, so \<open>open\<close> ends in a \<open>NameError\<close>, not in the
  error for an unsupported construct.
\<close>

theorem open_NF_IN_not_rejected:
  "open_sim [] (log_of_lines
       [''TB 0'', ''TE 10'', ''TS 100'', ''SE'', ''NF other.sim'', ''EN'']) detector_dict 0
     = Inr ([], \<lparr>tstart = Some 0, tstop = Some 10, nthrown = Some 100, hits = []\<rparr>)
   \<and> open_sim [] (log_of_lines
       [''TB 0'', ''TE 10'', ''TS 100'', ''SE'', ''IN other.sim'', ''EN'']) detector_dict 0
     = Inr ([], \<lparr>tstart = Some 0, tstop = Some 10, nthrown = Some 100, hits = []\<rparr>)
   \<and> open_sim [] (log_of_lines
       [''TB 0'', ''TE 10'', ''TS 100'', ''NF other.sim'']) detector_dict 0
     = Inl (NameError ''InputError'')"
  by code_simp

text \<open>
  C2, as stated, fails: \<open>TB\<close>, \<open>TE\<close> and \<open>TS\<close> lines inside an event block leave the
  run as it was, while the same lines after the block set the three fields.
\<close>

theorem open_global_key_inside_block_counterexample:
  "open_sim [] (log_of_lines
       [''TB 0'', ''TE 10'', ''TS 100'', ''SE'', ''TB 5'', ''TE 7'', ''TS 3'', ''EN''])
       detector_dict 0
     = Inr ([], \<lparr>tstart = Some 0, tstop = Some 10, nthrown = Some 100, hits = []\<rparr>)
   \<and> open_sim [] (log_of_lines
       [''TB 0'', ''TE 10'', ''TS 100'', ''SE'', ''EN'', ''TB 5'', ''TE 7'', ''TS 3''])
       detector_dict 0
     = Inr ([], \<lparr>tstart = Some 5, tstop = Some 7, nthrown = Some 3, hits = []\<rparr>)"
  by code_simp

text \<open>
  C2, amended. The keys \<open>TB\<close>, \<open>TE\<close> and \<open>TS\<close> are recognized only outside an event
  block: there the line sets \<open>tstart\<close>, \<open>tstop\<close> or \<open>nthrown\<close> from its second token
  (or fails if that token is missing or no number); inside an event block the line is
  skipped and the state of the scan is unchanged.
\<close>

theorem global_keys_only_outside:
  assumes "take 2 line = ''TB'' \<or> take 2 line = ''TE'' \<or> take 2 line = ''TS''"
  shows "(in_events st \<longrightarrow> step dd ts st line = Inr st)
       \<and> (\<not> in_events st \<longrightarrow>
            step dd ts st line =
              (if take 2 line = ''TB'' then
                 (case read_time line ts of
                    Inl e \<Rightarrow> Inl e
                  | Inr v \<Rightarrow> Inr (st\<lparr>obj := (obj st)\<lparr>tstart := Some v\<rparr>\<rparr>))
               else if take 2 line = ''TE'' then
                 (case read_time line ts of
                    Inl e \<Rightarrow> Inl e
                  | Inr v \<Rightarrow> Inr (st\<lparr>obj := (obj st)\<lparr>tstop := Some v\<rparr>\<rparr>))
               else
                 (case read_count line of
                    Inl e \<Rightarrow> Inl e
                  | Inr n \<Rightarrow> Inr (st\<lparr>obj := (obj st)\<lparr>nthrown := Some n\<rparr>\<rparr>))))"
proof (intro conjI impI)
  assume "in_events st"
  then show "step dd ts st line = Inr st"
    using assms by (auto simp: step_skip_inside)
next
  assume "\<not> in_events st"
  then show "step dd ts st line =
              (if take 2 line = ''TB'' then
                 (case read_time line ts of
                    Inl e \<Rightarrow> Inl e
                  | Inr v \<Rightarrow> Inr (st\<lparr>obj := (obj st)\<lparr>tstart := Some v\<rparr>\<rparr>))
               else if take 2 line = ''TE'' then
                 (case read_time line ts of
                    Inl e \<Rightarrow> Inl e
                  | Inr v \<Rightarrow> Inr (st\<lparr>obj := (obj st)\<lparr>tstop := Some v\<rparr>\<rparr>))
               else
                 (case read_count line of
                    Inl e \<Rightarrow> Inl e
                  | Inr n \<Rightarrow> Inr (st\<lparr>obj := (obj st)\<lparr>nthrown := Some n\<rparr>\<rparr>)))"
    using assms by (auto simp: step_outside global_keys_def)
qed

theorem global_keys_only_outside_witness:
  "step detector_dict 2
       \<lparr>obj = init_sim, in_events = True, time_var = None, heap = []\<rparr> ''TB 5''
     = Inr \<lparr>obj = init_sim, in_events = True, time_var = None, heap = []\<rparr>
   \<and> step detector_dict 2
       \<lparr>obj = init_sim, in_events = False, time_var = None, heap = []\<rparr> ''TB 5''
     = Inr \<lparr>obj = init_sim\<lparr>tstart := Some 7\<rparr>, in_events = False, time_var = None,
            heap = []\<rparr>"
proof -
  have k: "take 2 ''TB 5'' = ''TB'' \<or> take 2 ''TB 5'' = ''TE'' \<or> take 2 ''TB 5'' = ''TS''"
    by simp
  have r: "read_time ''TB 5'' 2 = Inr 7" by code_simp
  show ?thesis
    using
      global_keys_only_outside [OF k,
        of "\<lparr>obj = init_sim, in_events = True, time_var = None, heap = []\<rparr>" detector_dict 2]
      global_keys_only_outside [OF k,
        of "\<lparr>obj = init_sim, in_events = False, time_var = None, heap = []\<rparr>" detector_dict 2]
      r
    by simp
qed

text \<open>
  C7. \<open>open\<close> fails with \<open>MissingRequiredField k\<close> exactly when the scan of the whole
  log completes and one of \<open>tstart\<close>, \<open>tstop\<close>, \<open>nthrown\<close> is still unset, \<open>k\<close> being
  the key of the first unset one in the order \<open>TB\<close>, \<open>TE\<close>, \<open>TS\<close>; no line of the scan
  raises this error. A log without any \<open>TS\<close> line makes \<open>open\<close> fail, and with
  \<open>MissingRequiredField TS\<close> if the scan completes with \<open>tstart\<close> and \<open>tstop\<close> set.
\<close>

theorem open_missing_required:
  "((open_sim h content dd ts = Inl (MissingRequiredField k)) =
      (\<exists>st. scan dd ts (readlines content) (init_state h) = Inr st \<and>
         (if tstart (obj st) = None then k = ''TB''
          else if tstop (obj st) = None then k = ''TE''
          else nthrown (obj st) = None \<and> k = ''TS'')))
   \<and> ((\<exists>k'. open_sim h content dd ts = Inl (MissingRequiredField k')) =
      (\<exists>st. scan dd ts (readlines content) (init_state h) = Inr st \<and>
         (tstart (obj st) = None \<or> tstop (obj st) = None \<or> nthrown (obj st) = None)))
   \<and> scan dd ts ls st0 \<noteq> Inl (MissingRequiredField k)
   \<and> ((\<forall>l\<in>set (readlines content). take 2 l \<noteq> ''TS'') \<longrightarrow>
        (\<exists>e. open_sim h content dd ts = Inl e) \<and>
        (\<forall>st. scan dd ts (readlines content) (init_state h) = Inr st
              \<and> tstart (obj st) \<noteq> None \<and> tstop (obj st) \<noteq> None
           \<longrightarrow> open_sim h content dd ts = Inl (MissingRequiredField ''TS'')))"
proof (intro conjI impI)
  show "(open_sim h content dd ts = Inl (MissingRequiredField k)) =
     (\<exists>st. scan dd ts (readlines content) (init_state h) = Inr st \<and>
        (if tstart (obj st) = None then k = ''TB''
         else if tstop (obj st) = None then k = ''TE''
         else nthrown (obj st) = None \<and> k = ''TS''))"
    by (cases "scan dd ts (readlines content) (init_state h)")
       (auto simp: open_sim_def check_required_def scan_MRF)
  show "(\<exists>k'. open_sim h content dd ts = Inl (MissingRequiredField k')) =
     (\<exists>st. scan dd ts (readlines content) (init_state h) = Inr st \<and>
        (tstart (obj st) = None \<or> tstop (obj st) = None \<or> nthrown (obj st) = None))"
    by (cases "scan dd ts (readlines content) (init_state h)")
       (auto simp: open_sim_def check_required_def scan_MRF)
  show "scan dd ts ls st0 \<noteq> Inl (MissingRequiredField k)"
    by (rule scan_MRF)
next
  assume nots: "\<forall>l\<in>set (readlines content). take 2 l \<noteq> ''TS''"
  have none: "nthrown (obj st) = None"
    if "scan dd ts (readlines content) (init_state h) = Inr st" for st
    using scan_nthrown [OF that nots] by (simp add: init_state_def init_sim_def)
  show "\<exists>e. open_sim h content dd ts = Inl e"
  proof (cases "scan dd ts (readlines content) (init_state h)")
    case (Inl e)
    then show ?thesis by (simp add: open_sim_def)
  next
    case (Inr st)
    then show ?thesis using none [OF Inr] by (simp add: open_sim_def check_required_def)
  qed
  show "\<forall>st. scan dd ts (readlines content) (init_state h) = Inr st
              \<and> tstart (obj st) \<noteq> None \<and> tstop (obj st) \<noteq> None
           \<longrightarrow> open_sim h content dd ts = Inl (MissingRequiredField ''TS'')"
    using none by (auto simp: open_sim_def check_required_def)
qed

theorem open_missing_required_witness:
  "open_sim [] (log_of_lines [''TB 0'', ''TE 10'', ''SE'', ''EN'']) detector_dict 0
     = Inl (MissingRequiredField ''TS'')"
proof -
  let ?c = "log_of_lines [''TB 0'', ''TE 10'', ''SE'', ''EN'']"
  let ?st = "\<lparr>obj = \<lparr>tstart = Some 0, tstop = Some 10, nthrown = None, hits = []\<rparr>,
              in_events = False, time_var = None, heap = []\<rparr>"
  have 1: "\<forall>l\<in>set (readlines ?c). take 2 l \<noteq> ''TS''" by code_simp
  have 2: "scan detector_dict 0 (readlines ?c) (init_state []) = Inr ?st" by code_simp
  show ?thesis
    using open_missing_required [of "[]" ?c detector_dict 0] 1 2 by simp
qed

text \<open>
  C10, as stated, fails in its last part: an \<open>HT\<close> line outside an event block is ignored,
  so a log whose \<open>HT\<close> line comes before any \<open>TI\<close> line, and before any \<open>SE\<close>, is read
  without failure and gives a run without hits.
\<close>

theorem open_HT_outside_block_counterexample:
  "take 2 (readlines (log_of_lines
       [''HT ;4.88500;4.88500;;50.0'', ''TB 0'', ''TE 10'', ''TS 100'']) ! 0) = ''HT''
   \<and> open_sim [] (log_of_lines
       [''HT ;4.88500;4.88500;;50.0'', ''TB 0'', ''TE 10'', ''TS 100'']) detector_dict 0
     = Inr ([], \<lparr>tstart = Some 0, tstop = Some 10, nthrown = Some 100, hits = []\<rparr>)"
  by code_simp

text \<open>
  C10, amended. The local variable \<open>time\<close> is assigned only by a \<open>TI\<close> line inside an
  event block; no other line, \<open>SE\<close> included, changes or resets it. So an \<open>HT\<close> line
  inside an event block that follows such a \<open>TI\<close> line with no \<open>TI\<close> line in between,
  whatever block boundaries lie in between, appends a hit with the time of that \<open>TI\<close>
  line (and the detector and energy of its own fields); an \<open>HT\<close> line inside an event
  block with no \<open>TI\<close> line anywhere before it makes \<open>open\<close> fail, with
  \<open>UnboundLocalError\<close> when nothing else is wrong before; and an \<open>HT\<close> line outside an
  event block is ignored.
\<close>

theorem hit_time_from_last_TI:
  "(step dd ts st line = Inr st' \<and> \<not> (in_events st \<and> take 2 line = ''TI'')
      \<longrightarrow> time_var st' = time_var st)
   \<and> (scan dd ts pre sa = Inr sb \<and> in_events sb \<and> take 2 ti = ''TI''
        \<and> (\<forall>l\<in>set mid. take 2 l \<noteq> ''TI'')
        \<and> scan dd ts (pre @ ti # mid) sa = Inr sc \<and> in_events sc \<and> take 2 ht = ''HT''
        \<and> 5 \<le> length (py_split_sep (CHR '';'') ht)
        \<and> dd (strip (py_split_sep (CHR '';'') ht ! 1) @ '','' @
               strip (py_split_sep (CHR '';'') ht ! 2)) = Some d
        \<and> py_float (py_split_sep (CHR '';'') ht ! 4) = Inr v
      \<longrightarrow> (\<exists>t. read_time ti ts = Inr t
             \<and> step dd ts sc ht
                 = Inr (sc\<lparr>obj := (obj sc)\<lparr>hits := hits (obj sc) @ [length (heap sc)]\<rparr>,
                          heap := heap sc @ [\<lparr>time = t, detector = d, energy = v\<rparr>]\<rparr>)))
   \<and> (readlines content = pre' @ ht' # post \<and> take 2 ht' = ''HT''
        \<and> (\<forall>l\<in>set pre'. take 2 l \<noteq> ''TI'')
        \<and> (\<forall>s. scan dd ts pre' (init_state h) = Inr s \<longrightarrow> in_events s)
      \<longrightarrow> (\<exists>e. open_sim h content dd ts = Inl e)
          \<and> ((\<exists>s. scan dd ts pre' (init_state h) = Inr s)
              \<and> 5 \<le> length (py_split_sep (CHR '';'') ht')
              \<and> dd (strip (py_split_sep (CHR '';'') ht' ! 1) @ '','' @
                     strip (py_split_sep (CHR '';'') ht' ! 2)) = Some d'
              \<and> py_float (py_split_sep (CHR '';'') ht' ! 4) = Inr v'
             \<longrightarrow> open_sim h content dd ts = Inl UnboundLocalError))
   \<and> (\<not> in_events su \<and> take 2 hu = ''HT'' \<longrightarrow> step dd ts su hu = Inr su)"
proof (intro conjI impI)
  assume "step dd ts st line = Inr st' \<and> \<not> (in_events st \<and> take 2 line = ''TI'')"
  then show "time_var st' = time_var st"
    using step_time_var by blast
next
  assume a: "scan dd ts pre sa = Inr sb \<and> in_events sb \<and> take 2 ti = ''TI''
        \<and> (\<forall>l\<in>set mid. take 2 l \<noteq> ''TI'')
        \<and> scan dd ts (pre @ ti # mid) sa = Inr sc \<and> in_events sc \<and> take 2 ht = ''HT''
        \<and> 5 \<le> length (py_split_sep (CHR '';'') ht)
        \<and> dd (strip (py_split_sep (CHR '';'') ht ! 1) @ '','' @
               strip (py_split_sep (CHR '';'') ht ! 2)) = Some d
        \<and> py_float (py_split_sep (CHR '';'') ht ! 4) = Inr v"
  then have rest: "scan dd ts (ti # mid) sb = Inr sc"
    by (auto simp: scan_append)
  then obtain sb' where sb': "step dd ts sb ti = Inr sb'" and m: "scan dd ts mid sb' = Inr sc"
    by (auto split: sum.splits)
  from sb' a obtain t where t: "read_time ti ts = Inr t" and "sb' = sb\<lparr>time_var := Some t\<rparr>"
    by (auto simp: step_TI split: sum.splits)
  then have "time_var sb' = Some t" by simp
  with scan_time_var [OF m] a have tv: "time_var sc = Some t" by simp
  from a have "step dd ts sc ht = read_hit ht dd sc"
    using step_HT [of sc ht dd ts] by auto
  also have "\<dots> = Inr (sc\<lparr>obj := (obj sc)\<lparr>hits := hits (obj sc) @ [length (heap sc)]\<rparr>,
                          heap := heap sc @ [\<lparr>time = t, detector = d, energy = v\<rparr>]\<rparr>)"
    using a tv by (simp add: read_hit_def Let_def)
  finally show "\<exists>t. read_time ti ts = Inr t
             \<and> step dd ts sc ht
                 = Inr (sc\<lparr>obj := (obj sc)\<lparr>hits := hits (obj sc) @ [length (heap sc)]\<rparr>,
                          heap := heap sc @ [\<lparr>time = t, detector = d, energy = v\<rparr>]\<rparr>)"
    using t by blast
next
  assume a: "readlines content = pre' @ ht' # post \<and> take 2 ht' = ''HT''
        \<and> (\<forall>l\<in>set pre'. take 2 l \<noteq> ''TI'')
        \<and> (\<forall>s. scan dd ts pre' (init_state h) = Inr s \<longrightarrow> in_events s)"
  show "\<exists>e. open_sim h content dd ts = Inl e"
  proof (cases "scan dd ts pre' (init_state h)")
    case (Inl e)
    then show ?thesis using a by (auto simp: open_sim_def scan_append)
  next
    case (Inr s)
    with a have ev: "in_events s" by blast
    from scan_time_var [OF Inr] a have "time_var s = None"
      by (simp add: init_state_def)
    from read_hit_unbound [OF this] obtain e where "read_hit ht' dd s = Inl e" by blast
    with ev a have "step dd ts s ht' = Inl e" using step_HT [of s ht' dd ts] by auto
    then show ?thesis using a Inr by (auto simp: open_sim_def scan_append)
  qed
next
  assume a: "readlines content = pre' @ ht' # post \<and> take 2 ht' = ''HT''
        \<and> (\<forall>l\<in>set pre'. take 2 l \<noteq> ''TI'')
        \<and> (\<forall>s. scan dd ts pre' (init_state h) = Inr s \<longrightarrow> in_events s)"
    and b: "(\<exists>s. scan dd ts pre' (init_state h) = Inr s)
              \<and> 5 \<le> length (py_split_sep (CHR '';'') ht')
              \<and> dd (strip (py_split_sep (CHR '';'') ht' ! 1) @ '','' @
                     strip (py_split_sep (CHR '';'') ht' ! 2)) = Some d'
              \<and> py_float (py_split_sep (CHR '';'') ht' ! 4) = Inr v'"
  from b obtain s where s: "scan dd ts pre' (init_state h) = Inr s" by blast
  with a have ev: "in_events s" by blast
  from scan_time_var [OF s] a have none: "time_var s = None"
    by (simp add: init_state_def)
  from ev a have "step dd ts s ht' = read_hit ht' dd s"
    using step_HT [of s ht' dd ts] by auto
  also have "\<dots> = Inl UnboundLocalError"
    using b none by (simp add: read_hit_def Let_def)
  finally show "open_sim h content dd ts = Inl UnboundLocalError"
    using a s by (auto simp: open_sim_def scan_append)
next
  assume "\<not> in_events su \<and> take 2 hu = ''HT''"
  then show "step dd ts su hu = Inr su"
    by (simp add: step_outside global_keys_HT)
qed

theorem hit_time_from_last_TI_witness:
  "step detector_dict 0
       \<lparr>obj = init_sim, in_events = True, time_var = Some 1.5, heap = []\<rparr>
       (''EN'' @ [CHR 0x0A])
     = Inr \<lparr>obj = init_sim, in_events = False, time_var = Some 1.5, heap = []\<rparr>
   \<and> step detector_dict 0
       \<lparr>obj = init_sim, in_events = True, time_var = Some 1.5, heap = []\<rparr>
       (''HT ;4.88500;4.88500;;50.0'' @ [CHR 0x0A])
     = Inr \<lparr>obj = init_sim\<lparr>hits := [0]\<rparr>, in_events = True, time_var = Some 1.5,
            heap = [\<lparr>time = 1.5, detector = ''q0'', energy = 50\<rparr>]\<rparr>
   \<and> open_sim [] (log_of_lines [''SE'', ''HT ;4.88500;4.88500;;50.0'', ''EN''])
        detector_dict 0 = Inl UnboundLocalError
   \<and> step detector_dict 0
       \<lparr>obj = init_sim, in_events = False, time_var = Some 1.5, heap = []\<rparr>
       (''HT ;4.88500;4.88500;;50.0'' @ [CHR 0x0A])
     = Inr \<lparr>obj = init_sim, in_events = False, time_var = Some 1.5, heap = []\<rparr>"
proof -
  let ?nl = "[CHR 0x0A]"
  let ?ht = "''HT ;4.88500;4.88500;;50.0'' @ ?nl"
  let ?a = "\<lparr>obj = init_sim, in_events = False, time_var = Some 1.5, heap = []\<rparr>"
  let ?b = "\<lparr>obj = init_sim, in_events = True, time_var = Some 1.5, heap = []\<rparr>"
  let ?s1 = "\<lparr>obj = init_sim, in_events = True, time_var = None, heap = []\<rparr>"
  have h2: "scan detector_dict 0 [''SE'' @ ?nl] (init_state []) = Inr ?s1 \<and> in_events ?s1
            \<and> take 2 (''TI 1.5'' @ ?nl) = ''TI''
            \<and> (\<forall>l\<in>set [''EN'' @ ?nl, ''SE'' @ ?nl]. take 2 l \<noteq> ''TI'')
            \<and> scan detector_dict 0
                 ([''SE'' @ ?nl] @ (''TI 1.5'' @ ?nl) # [''EN'' @ ?nl, ''SE'' @ ?nl])
                 (init_state []) = Inr ?b
            \<and> in_events ?b \<and> take 2 ?ht = ''HT''
            \<and> 5 \<le> length (py_split_sep (CHR '';'') ?ht)
            \<and> detector_dict (strip (py_split_sep (CHR '';'') ?ht ! 1) @ '','' @
                 strip (py_split_sep (CHR '';'') ?ht ! 2)) = Some ''q0''
            \<and> py_float (py_split_sep (CHR '';'') ?ht ! 4) = Inr 50"
    by code_simp
  have h3: "readlines (log_of_lines [''SE'', ''HT ;4.88500;4.88500;;50.0'', ''EN''])
              = [''SE'' @ ?nl] @ ?ht # [''EN'' @ ?nl]
            \<and> take 2 ?ht = ''HT''
            \<and> (\<forall>l\<in>set [''SE'' @ ?nl]. take 2 l \<noteq> ''TI'')"
    by code_simp
  have h4: "\<forall>s. scan detector_dict 0 [''SE'' @ ?nl] (init_state []) = Inr s \<longrightarrow> in_events s"
    using h2 by simp
  have h5: "\<exists>s. scan detector_dict 0 [''SE'' @ ?nl] (init_state []) = Inr s"
    using h2 by blast
  have h6: "\<not> in_events ?a \<and> take 2 ?ht = ''HT''" by simp
  have h1: "step detector_dict 0 ?b (''EN'' @ ?nl) = Inr ?a
            \<and> \<not> (in_events ?b \<and> take 2 (''EN'' @ ?nl) = ''TI'')"
    by code_simp
  have r: "read_time (''TI 1.5'' @ ?nl) 0 = Inr 1.5" by code_simp
  note inst = hit_time_from_last_TI [where dd = detector_dict and ts = 0
      and st = "?b" and line = "''EN'' @ ?nl" and st' = "?a"
      and pre = "[''SE'' @ ?nl]" and sa = "init_state []" and sb = "?s1"
      and ti = "''TI 1.5'' @ ?nl" and mid = "[''EN'' @ ?nl, ''SE'' @ ?nl]" and sc = "?b"
      and ht = "?ht" and d = "''q0''" and v = 50
      and content = "log_of_lines [''SE'', ''HT ;4.88500;4.88500;;50.0'', ''EN'']"
      and pre' = "[''SE'' @ ?nl]" and ht' = "?ht" and post = "[''EN'' @ ?nl]" and h = "[]"
      and d' = "''q0''" and v' = 50 and su = "?a" and hu = "?ht"]
  from inst h2 obtain t where
    "read_time (''TI 1.5'' @ ?nl) 0 = Inr t"
    "step detector_dict 0 ?b ?ht
       = Inr (?b\<lparr>obj := (obj ?b)\<lparr>hits := hits (obj ?b) @ [length (heap ?b)]\<rparr>,
                heap := heap ?b @ [\<lparr>time = t, detector = ''q0'', energy = 50\<rparr>]\<rparr>)"
    by blast
  with r have c2: "step detector_dict 0 ?b ?ht
     = Inr \<lparr>obj = init_sim\<lparr>hits := [0]\<rparr>, in_events = True, time_var = Some 1.5,
            heap = [\<lparr>time = 1.5, detector = ''q0'', energy = 50\<rparr>]\<rparr>"
    by (simp add: init_sim_def)
  from inst h2 h3 h4 h5
  have c3: "open_sim [] (log_of_lines [''SE'', ''HT ;4.88500;4.88500;;50.0'', ''EN''])
             detector_dict 0 = Inl UnboundLocalError"
    by blast
  from inst h6 have c4: "step detector_dict 0 ?a ?ht = Inr ?a" by blast
  from inst h1 have "time_var ?a = time_var ?b" by blast
  with h1 have c1: "step detector_dict 0 ?b (''EN'' @ ?nl) = Inr ?a" by blast
  from c1 c2 c3 c4 show ?thesis by simp
qed

section \<open>Claims about the event list\<close>

text \<open>
  C6, as stated, fails for the table of a single edge, which is strictly increasing and
  has the length \<open>N+1\<close> with \<open>N = 0\<close>: there \<open>nchannels - 1\<close> is \<open>-1\<close>, and the channel
  computed for every energy is \<open>-1\<close>, handed over by \<open>to_TTE\<close> as it is.
\<close>

theorem energy_channel_single_edge_counterexample:
  "sorted_wrt (<) [10 :: real] \<and> length [10 :: real] = Suc 0
   \<and> energy_channel (int (length [10 :: real]) - 1) [10] 3 = Inr (- 1)
   \<and> to_TTE [\<lparr>time = 1.5, detector = ''q0'', energy = 3\<rparr>]
        \<lparr>tstart = Some 0, tstop = Some 10, nthrown = Some 100, hits = [0]\<rparr> [10]
      = Inr \<lparr>times_list = [1.5], pha_list = [- 1], chan_lo = [], chan_hi = []\<rparr>"
  by code_simp

text \<open>
  C6, amended. For a strictly increasing table of \<open>N+1\<close> edges with at least one channel
  (\<open>N \<ge> 1\<close>), the channel computed for an energy \<open>e\<close> exists and lies in \<open>0..N-1\<close>; it is
  \<open>0\<close> below the first edge and \<open>N-1\<close> from the last edge on, and between them it is \<open>i\<close>
  exactly when \<open>edges[i] \<le> e < edges[i+1]\<close>. For such a table \<open>to_TTE\<close> succeeds on every
  run and gives every hit of the run, in the order of \<open>hits\<close>, its time and the channel
  computed for its energy, a channel of that range: no hit is dropped.
\<close>

theorem energy_channel_clamped:
  assumes "sorted_wrt (<) edges" and "length edges = Suc N" and "1 \<le> N"
  shows "(\<exists>c. energy_channel (int (length edges) - 1) edges e = Inr c
           \<and> 0 \<le> c \<and> c \<le> int N - 1
           \<and> (e < edges ! 0 \<longrightarrow> c = 0)
           \<and> (edges ! N \<le> e \<longrightarrow> c = int N - 1)
           \<and> (edges ! 0 \<le> e \<and> e < edges ! N \<longrightarrow>
                (\<forall>i<N. c = int i \<longleftrightarrow> edges ! i \<le> e \<and> e < edges ! Suc i)))
       \<and> (\<exists>ev. to_TTE h run edges = Inr ev
           \<and> length (pha_list ev) = length (hits run)
           \<and> times_list ev = map (\<lambda>r. time (h ! r)) (hits run)
           \<and> map Inr (pha_list ev)
               = map (\<lambda>r. energy_channel (int (length edges) - 1) edges (energy (h ! r)))
                   (hits run)
           \<and> (\<forall>c\<in>set (pha_list ev). 0 \<le> c \<and> c \<le> int N - 1))"
proof
  from assms(1) have s: "sorted edges"
    by (rule sorted_wrt_mono_rel [rotated]) simp
  let ?k = "searchsorted_right edges e"
  let ?c = "py_min (int N - 1) (py_max 0 (int ?k - 1))"
  have iff: "i < ?k \<longleftrightarrow> i < Suc N \<and> edges ! i \<le> e" for i
    using searchsorted_right_iff [OF s, of i e] assms(2) by simp
  have kle: "?k \<le> Suc N"
    using searchsorted_right_le [of edges e] assms(2) by simp
  note c = energy_channel_range(1) [OF s assms(2,3), of e]
  have r: "0 \<le> ?c \<and> ?c \<le> int N - 1"
    using energy_channel_range(2,3) [OF s assms(2,3), of e] by simp
  have u: "?c = 0" if "e < edges ! 0"
  proof -
    from that iff [of 0] have "?k = 0" by simp
    then show ?thesis using assms(3) by (simp add: py_min_eq py_max_eq)
  qed
  have o: "?c = int N - 1" if "edges ! N \<le> e"
  proof -
    from that iff [of N] kle have "?k = Suc N" by simp
    then show ?thesis by (simp add: py_min_eq py_max_eq)
  qed
  have m: "?c = int i \<longleftrightarrow> edges ! i \<le> e \<and> e < edges ! Suc i"
    if "edges ! 0 \<le> e \<and> e < edges ! N" and "i < N" for i
  proof -
    from that iff [of 0] iff [of N] have k: "0 < ?k \<and> ?k \<le> N" by auto
    then have "?c = int ?k - 1" by (auto simp: py_min_eq py_max_eq)
    then have "?c = int i \<longleftrightarrow> ?k = Suc i" by auto
    also have "\<dots> \<longleftrightarrow> i < ?k \<and> \<not> Suc i < ?k" by auto
    also have "\<dots> \<longleftrightarrow> edges ! i \<le> e \<and> e < edges ! Suc i"
      using iff [of i] iff [of "Suc i"] that(2) by auto
    finally show ?thesis .
  qed
  from c r u o m
  show "\<exists>c. energy_channel (int (length edges) - 1) edges e = Inr c
           \<and> 0 \<le> c \<and> c \<le> int N - 1
           \<and> (e < edges ! 0 \<longrightarrow> c = 0)
           \<and> (edges ! N \<le> e \<longrightarrow> c = int N - 1)
           \<and> (edges ! 0 \<le> e \<and> e < edges ! N \<longrightarrow>
                (\<forall>i<N. c = int i \<longleftrightarrow> edges ! i \<le> e \<and> e < edges ! Suc i))"
    by blast
  from s to_TTE_Inr_iff [of h run edges] obtain ev where ev: "to_TTE h run edges = Inr ev"
    by blast
  note chans = to_TTE_Inr(2) [OF ev]
  then have len: "length (pha_list ev) = length (hits run)"
    using length_map by metis
  have "0 \<le> c \<and> c \<le> int N - 1" if "c \<in> set (pha_list ev)" for c
  proof -
    from that have "Inr c \<in> set (map Inr (pha_list ev) :: (error + int) list)" by simp
    with chans obtain r where
      "energy_channel (int (length edges) - 1) edges (energy (h ! r)) = Inr c"
      by (metis (no_types, lifting) image_iff list.set_map)
    with energy_channel_range [OF s assms(2,3), of "energy (h ! r)"] show ?thesis by simp
  qed
  with ev len chans [symmetric] to_TTE_Inr(1) [OF ev]
  show "\<exists>ev. to_TTE h run edges = Inr ev
           \<and> length (pha_list ev) = length (hits run)
           \<and> times_list ev = map (\<lambda>r. time (h ! r)) (hits run)
           \<and> map Inr (pha_list ev)
               = map (\<lambda>r. energy_channel (int (length edges) - 1) edges (energy (h ! r)))
                   (hits run)
           \<and> (\<forall>c\<in>set (pha_list ev). 0 \<le> c \<and> c \<le> int N - 1)"
    by blast
qed

theorem energy_channel_clamped_witness:
  "sorted_wrt (<) [4.5, 10, 100, 2000 :: real] \<and> length [4.5, 10, 100, 2000 :: real] = Suc 3
   \<and> energy_channel 3 [4.5, 10, 100, 2000] 3.0 = Inr 0
   \<and> energy_channel 3 [4.5, 10, 100, 2000] 5000 = Inr 2
   \<and> energy_channel 3 [4.5, 10, 100, 2000] 50 = Inr 1
   \<and> (\<exists>ev. to_TTE [\<lparr>time = 1.5, detector = ''q0'', energy = 5000\<rparr>]
              \<lparr>tstart = Some 0, tstop = Some 10, nthrown = Some 100, hits = [0]\<rparr>
              [4.5, 10, 100, 2000] = Inr ev
          \<and> times_list ev = [1.5] \<and> pha_list ev = [2])"
proof -
  let ?h = "[\<lparr>time = 1.5, detector = ''q0'', energy = 5000\<rparr>]"
  let ?run = "\<lparr>tstart = Some 0, tstop = Some 10, nthrown = Some 100, hits = [0]\<rparr>"
  have 1: "sorted_wrt (<) [4.5, 10, 100, 2000 :: real]" by simp
  have 2: "length [4.5, 10, 100, 2000 :: real] = Suc 3" by simp
  have 3: "(1::nat) \<le> 3" by simp
  from energy_channel_clamped [OF 1 2 3, of "3.0", THEN conjunct1]
  have a: "energy_channel 3 [4.5, 10, 100, 2000] 3.0 = Inr 0" by auto
  from energy_channel_clamped [OF 1 2 3, of 5000, THEN conjunct1]
  have b: "energy_channel 3 [4.5, 10, 100, 2000] 5000 = Inr 2" by auto
  from energy_channel_clamped [OF 1 2 3, of 50, THEN conjunct1] obtain c where
    c: "energy_channel 3 [4.5, 10, 100, 2000] 50 = Inr c"
    and i: "\<forall>i<3. c = int i \<longleftrightarrow> [4.5, 10, 100, 2000 :: real] ! i \<le> 50
                \<and> 50 < [4.5, 10, 100, 2000 :: real] ! Suc i"
    by auto
  from i [rule_format, of 1] have c1: "c = 1" by simp
  from energy_channel_clamped [OF 1 2 3, of 0 ?h ?run, THEN conjunct2] obtain ev where
    ev: "to_TTE ?h ?run [4.5, 10, 100, 2000] = Inr ev"
    and t: "times_list ev = map (\<lambda>r. time (?h ! r)) (hits ?run)"
    and p: "map Inr (pha_list ev)
             = map (\<lambda>r. energy_channel (int (length [4.5, 10, 100, 2000 :: real]) - 1)
                     [4.5, 10, 100, 2000] (energy (?h ! r))) (hits ?run)"
    by blast
  from p b have "map Inr (pha_list ev) = [Inr 2 :: error + int]" by simp
  then have "pha_list ev = [2]" by (auto simp: map_eq_Cons_conv)
  with ev t have "\<exists>ev. to_TTE ?h ?run [4.5, 10, 100, 2000] = Inr ev
          \<and> times_list ev = [1.5] \<and> pha_list ev = [2]"
    by simp
  with a b c c1 1 2 show ?thesis by simp
qed

text \<open>
  C8. Whenever \<open>to_TTE\<close> returns an event list, it has one time and one channel per
  hit of the run, the times are the times of the hits, unchanged and in the order of
  \<open>hits\<close>, the channels are those computed for the energies of the hits in the same order,
  and the low and high edges are \<open>edges[:-1]\<close> and \<open>edges[1:]\<close>. It returns one exactly
  when the run has no hit or the table is monotonic (\<open>np.digitize\<close> rejects any other).
\<close>

theorem to_TTE_one_entry_per_hit:
  "(to_TTE h run edges = Inr ev \<longrightarrow>
      length (times_list ev) = length (hits run) \<and> length (pha_list ev) = length (hits run)
      \<and> times_list ev = map (\<lambda>r. time (h ! r)) (hits run)
      \<and> map (\<lambda>r. energy_channel (int (length edges) - 1) edges (energy (h ! r))) (hits run)
          = map Inr (pha_list ev)
      \<and> chan_lo ev = butlast edges \<and> chan_hi ev = drop 1 edges)
   \<and> ((\<exists>ev'. to_TTE h run edges = Inr ev') \<longleftrightarrow>
        hits run = [] \<or> sorted edges \<or> sorted (rev edges))"
proof (intro conjI impI)
  assume a: "to_TTE h run edges = Inr ev"
  note f = to_TTE_Inr [OF a]
  from f(2) have "length (hits run) = length (pha_list ev)"
    using length_map by metis
  with f show "length (times_list ev) = length (hits run)"
    and "length (pha_list ev) = length (hits run)"
    and "times_list ev = map (\<lambda>r. time (h ! r)) (hits run)"
    and "map (\<lambda>r. energy_channel (int (length edges) - 1) edges (energy (h ! r))) (hits run)
          = map Inr (pha_list ev)"
    and "chan_lo ev = butlast edges" and "chan_hi ev = drop 1 edges"
    by simp_all
next
  show "(\<exists>ev'. to_TTE h run edges = Inr ev') \<longleftrightarrow>
        hits run = [] \<or> sorted edges \<or> sorted (rev edges)"
    by (rule to_TTE_Inr_iff)
qed

theorem to_TTE_one_entry_per_hit_witness:
  "to_TTE [\<lparr>time = 1.5, detector = ''q0'', energy = 50\<rparr>,
           \<lparr>time = -2.5, detector = ''q1'', energy = 20\<rparr>]
      \<lparr>tstart = Some (-5), tstop = Some 10, nthrown = Some 200, hits = [1, 0]\<rparr>
      [4.5, 10, 100, 2000]
     = Inr \<lparr>times_list = [-2.5, 1.5], pha_list = [1, 1],
            chan_lo = [4.5, 10, 100], chan_hi = [10, 100, 2000]\<rparr>
   \<and> length (times_list \<lparr>times_list = [-2.5, 1.5 :: real], pha_list = [1, 1],
            chan_lo = [4.5, 10, 100], chan_hi = [10, 100, 2000]\<rparr>) = 2"
proof -
  let ?h = "[\<lparr>time = 1.5, detector = ''q0'', energy = 50\<rparr>,
             \<lparr>time = -2.5, detector = ''q1'', energy = 20\<rparr>]"
  let ?run = "\<lparr>tstart = Some (-5), tstop = Some 10, nthrown = Some 200, hits = [1, 0]\<rparr>"
  let ?ev = "\<lparr>times_list = [-2.5, 1.5 :: real], pha_list = [1, 1],
              chan_lo = [4.5, 10, 100], chan_hi = [10, 100, 2000]\<rparr>"
  have e: "to_TTE ?h ?run [4.5, 10, 100, 2000] = Inr ?ev" by code_simp
  from to_TTE_one_entry_per_hit [of ?h ?run "[4.5, 10, 100, 2000]" ?ev] e
  have "length (times_list ?ev) = length (hits ?run)" by blast
  with e show ?thesis by simp
qed

section \<open>Claims about \<open>merge\<close>\<close>

text \<open>
  C3, as stated, fails for runs whose hit objects are shared. First, \<open>bkg.merge(bkg, 10)\<close>
  leaves the one hit object of \<open>bkg\<close> twice in \<open>bkg.hits\<close>, at time 12.5;
  \<open>sim.merge(bkg, -5)\<close> then subtracts 5 from that object twice, and the hits taken
  from \<open>bkg\<close> are at 2.5, not at 7.5. Second, after \<open>sim.merge(bkg, -5)\<close> the hit of
  \<open>bkg\<close> is also a hit of \<open>sim\<close>; a further \<open>sim.merge(bkg, 5)\<close> overwrites its time,
  and \<open>sim\<close>, which held hits at -2.5 and 1.5, holds hits at 1.5, 2.5 and 2.5.
\<close>

theorem merge_shared_hits_counterexample:
  "merge np_argsort
        [\<lparr>time = 1.5, detector = ''q0'', energy = 50\<rparr>,
         \<lparr>time = 2.5, detector = ''q1'', energy = 20\<rparr>]
        \<lparr>tstart = Some 0, tstop = Some 10, nthrown = Some 100, hits = [1]\<rparr>
        \<lparr>tstart = Some 0, tstop = Some 10, nthrown = Some 100, hits = [1]\<rparr> 10
     = Inr ([\<lparr>time = 1.5, detector = ''q0'', energy = 50\<rparr>,
             \<lparr>time = 12.5, detector = ''q1'', energy = 20\<rparr>],
            \<lparr>tstart = Some 0, tstop = Some 20, nthrown = Some 200, hits = [1, 1]\<rparr>)
   \<and> merge np_argsort
        [\<lparr>time = 1.5, detector = ''q0'', energy = 50\<rparr>,
         \<lparr>time = 12.5, detector = ''q1'', energy = 20\<rparr>]
        \<lparr>tstart = Some 0, tstop = Some 10, nthrown = Some 100, hits = [0]\<rparr>
        \<lparr>tstart = Some 0, tstop = Some 20, nthrown = Some 200, hits = [1, 1]\<rparr> (-5)
     = Inr ([\<lparr>time = 1.5, detector = ''q0'', energy = 50\<rparr>,
             \<lparr>time = 2.5, detector = ''q1'', energy = 20\<rparr>],
            \<lparr>tstart = Some (-5), tstop = Some 15, nthrown = Some 300, hits = [0, 1, 1]\<rparr>)
   \<and> merge np_argsort
        [\<lparr>time = 1.5, detector = ''q0'', energy = 50\<rparr>,
         \<lparr>time = 2.5, detector = ''q1'', energy = 20\<rparr>]
        \<lparr>tstart = Some 0, tstop = Some 10, nthrown = Some 100, hits = [0]\<rparr>
        \<lparr>tstart = Some 0, tstop = Some 10, nthrown = Some 100, hits = [1]\<rparr> (-5)
     = Inr ([\<lparr>time = 1.5, detector = ''q0'', energy = 50\<rparr>,
             \<lparr>time = -2.5, detector = ''q1'', energy = 20\<rparr>],
            \<lparr>tstart = Some (-5), tstop = Some 10, nthrown = Some 200, hits = [1, 0]\<rparr>)
   \<and> merge np_argsort
        [\<lparr>time = 1.5, detector = ''q0'', energy = 50\<rparr>,
         \<lparr>time = -2.5, detector = ''q1'', energy = 20\<rparr>]
        \<lparr>tstart = Some (-5), tstop = Some 10, nthrown = Some 200, hits = [1, 0]\<rparr>
        \<lparr>tstart = Some 0, tstop = Some 10, nthrown = Some 100, hits = [1]\<rparr> 5
     = Inr ([\<lparr>time = 1.5, detector = ''q0'', energy = 50\<rparr>,
             \<lparr>time = 2.5, detector = ''q1'', energy = 20\<rparr>],
            \<lparr>tstart = Some (-5), tstop = Some 15, nthrown = Some 300, hits = [0, 1, 1]\<rparr>)"
  by code_simp

text \<open>
  C3, amended. For valid runs \<open>a\<close> and \<open>b\<close> that share no hit object, the hits of \<open>b\<close>
  being distinct objects, and an \<open>argsort\<close> that returns the indices of its argument in
  ascending order of the keys: \<open>merge\<close> succeeds, \<open>tstart\<close> is the minimum of
  \<open>a.tstart\<close> and \<open>b.tstart + s\<close>, \<open>tstop\<close> the maximum of \<open>a.tstop\<close> and
  \<open>b.tstop + s\<close>, \<open>nthrown\<close> the sum, the hits of \<open>a\<close> are its old hits together
  with the hits of \<open>b\<close> with \<open>s\<close> added to their times, and they are sorted by time.
\<close>

theorem merge_separate_runs:
  assumes "valid_run h a" and "valid_run h b"
    and "distinct (hits b)" and "set (hits a) \<inter> set (hits b) = {}"
    and "argsort_ok argsort
           (map (\<lambda>r. time (h ! r)) (hits a) @ map (\<lambda>r. time (h ! r) + s) (hits b))"
  shows "\<exists>h' a'. merge argsort h a b s = Inr (h', a')
           \<and> tstart a' = Some (min (the (tstart a)) (the (tstart b) + s))
           \<and> tstop a' = Some (max (the (tstop a)) (the (tstop b) + s))
           \<and> nthrown a' = Some (the (nthrown a) + the (nthrown b))
           \<and> mset (map (\<lambda>r. h' ! r) (hits a'))
               = mset (map (\<lambda>r. h ! r) (hits a))
                 + mset (map (\<lambda>r. (h ! r)\<lparr>time := time (h ! r) + s\<rparr>) (hits b))
           \<and> sorted (map (\<lambda>r. time (h' ! r)) (hits a'))"
proof -
  from assms(1,2) obtain b1 b2 e1 e2 n1 n2 where f:
    "tstart a = Some b1" "tstart b = Some b2" "tstop a = Some e1" "tstop b = Some e2"
    "nthrown a = Some n1" "nthrown b = Some n2"
    by (auto simp: valid_run_def)
  from assms(1,2) have ra: "\<forall>r\<in>set (hits a). r < length h"
    and rb: "\<forall>r\<in>set (hits b). r < length h"
    by (simp_all add: valid_run_def)
  define hs where "hs = hits a @ hits b"
  from merge_result [OF f, of h s argsort] obtain h' idx where
    hv: "\<And>x. x < length h \<Longrightarrow>
       h' ! x = (h ! x)\<lparr>time := time (h ! x) + s * real (count_list (hits b) x)\<rparr>"
    and idx: "idx = argsort (map (\<lambda>r. time (h' ! r)) hs)"
    and m: "merge argsort h a b s =
       Inr (h', \<lparr>tstart = Some (py_min b1 (b2 + s)), tstop = Some (py_max e1 (e2 + s)),
                 nthrown = Some (n1 + n2), hits = map (\<lambda>n. hs ! n) idx\<rparr>)"
    unfolding hs_def by blast
  define ts where "ts = map (\<lambda>r. time (h' ! r)) hs"
  have na: "h' ! r = h ! r" if "r \<in> set (hits a)" for r
  proof -
    from that assms(4) have "r \<notin> set (hits b)" by auto
    then have "count_list (hits b) r = 0" by (simp add: count_list_distinct [OF assms(3)])
    with that ra hv [of r] show ?thesis by simp
  qed
  have nb: "h' ! r = (h ! r)\<lparr>time := time (h ! r) + s\<rparr>" if "r \<in> set (hits b)" for r
  proof -
    from that have "count_list (hits b) r = 1" by (simp add: count_list_distinct [OF assms(3)])
    with that rb hv [of r] show ?thesis by simp
  qed
  have vals: "map (\<lambda>r. h' ! r) hs
               = map (\<lambda>r. h ! r) (hits a) @ map (\<lambda>r. (h ! r)\<lparr>time := time (h ! r) + s\<rparr>) (hits b)"
    using na nb by (simp add: hs_def)
  have tseq: "ts = map (\<lambda>r. time (h ! r)) (hits a) @ map (\<lambda>r. time (h ! r) + s) (hits b)"
    using na nb by (simp add: ts_def hs_def)
  have ok: "argsort_ok argsort ts"
    using assms(5) unfolding tseq .
  then have p: "sort idx = [0..<length hs]" and so: "sorted (map (\<lambda>i. ts ! i) idx)"
    unfolding argsort_ok_def idx ts_def by simp_all
  from mset_map_indices [OF p] have ms: "mset (map (\<lambda>n. hs ! n) idx) = mset hs" .
  have c1: "mset (map (\<lambda>r. h' ! r) (map (\<lambda>n. hs ! n) idx))
      = mset (map (\<lambda>r. h ! r) (hits a))
        + mset (map (\<lambda>r. (h ! r)\<lparr>time := time (h ! r) + s\<rparr>) (hits b))"
    using mset_map_cong_mset [OF ms, of "\<lambda>r. h' ! r"] unfolding vals by simp
  have "\<forall>n\<in>set idx. n < length hs"
    using perm_indices(2) [OF p] by simp
  then have "map (\<lambda>r. time (h' ! r)) (map (\<lambda>n. hs ! n) idx) = map (\<lambda>i. ts ! i) idx"
    by (simp add: ts_def)
  with so have c2: "sorted (map (\<lambda>r. time (h' ! r)) (map (\<lambda>n. hs ! n) idx))"
    by (simp only:)
  define a' where
    "a' = \<lparr>tstart = Some (py_min b1 (b2 + s)), tstop = Some (py_max e1 (e2 + s)),
            nthrown = Some (n1 + n2), hits = map (\<lambda>n. hs ! n) idx\<rparr>"
  have ha: "hits a' = map (\<lambda>n. hs ! n) idx" by (simp add: a'_def)
  have m': "merge argsort h a b s = Inr (h', a')"
    using m by (simp only: a'_def)
  have c1': "mset (map (\<lambda>r. h' ! r) (hits a'))
      = mset (map (\<lambda>r. h ! r) (hits a))
        + mset (map (\<lambda>r. (h ! r)\<lparr>time := time (h ! r) + s\<rparr>) (hits b))"
    unfolding ha by (rule c1)
  have c2': "sorted (map (\<lambda>r. time (h' ! r)) (hits a'))"
    unfolding ha by (rule c2)
  have c3: "tstart a' = Some (min (the (tstart a)) (the (tstart b) + s))
     \<and> tstop a' = Some (max (the (tstop a)) (the (tstop b) + s))
     \<and> nthrown a' = Some (the (nthrown a) + the (nthrown b))"
    using f by (simp add: a'_def py_min_eq py_max_eq)
  from m' c1' c2' c3 show ?thesis by blast
qed

theorem merge_separate_runs_witness:
  "argsort_ok np_argsort [1.5, 2.5 + (-5)]
   \<and> (\<exists>h' a'. merge np_argsort
        [\<lparr>time = 1.5, detector = ''q0'', energy = 50\<rparr>,
         \<lparr>time = 2.5, detector = ''q1'', energy = 20\<rparr>]
        \<lparr>tstart = Some 0, tstop = Some 10, nthrown = Some 100, hits = [0]\<rparr>
        \<lparr>tstart = Some 0, tstop = Some 10, nthrown = Some 100, hits = [1]\<rparr> (-5) = Inr (h', a')
      \<and> tstart a' = Some (-5) \<and> tstop a' = Some 10 \<and> nthrown a' = Some 200
      \<and> sorted (map (\<lambda>r. time (h' ! r)) (hits a')))"
proof -
  let ?h = "[\<lparr>time = 1.5, detector = ''q0'', energy = 50\<rparr>,
             \<lparr>time = 2.5, detector = ''q1'', energy = 20\<rparr>]"
  let ?a = "\<lparr>tstart = Some 0, tstop = Some 10, nthrown = Some 100, hits = [0]\<rparr>"
  let ?b = "\<lparr>tstart = Some 0, tstop = Some 10, nthrown = Some 100, hits = [1]\<rparr>"
  have 1: "valid_run ?h ?a" by code_simp
  have 2: "valid_run ?h ?b" by code_simp
  have 3: "distinct (hits ?b)" by simp
  have 4: "set (hits ?a) \<inter> set (hits ?b) = {}" by simp
  have 5: "argsort_ok np_argsort
             (map (\<lambda>r. time (?h ! r)) (hits ?a) @ map (\<lambda>r. time (?h ! r) + (-5)) (hits ?b))"
    by code_simp
  from merge_separate_runs [OF 1 2 3 4 5] obtain h' a' where
    "merge np_argsort ?h ?a ?b (-5) = Inr (h', a')"
    "tstart a' = Some (min (the (tstart ?a)) (the (tstart ?b) + (-5)))"
    "tstop a' = Some (max (the (tstop ?a)) (the (tstop ?b) + (-5)))"
    "nthrown a' = Some (the (nthrown ?a) + the (nthrown ?b))"
    "sorted (map (\<lambda>r. time (h' ! r)) (hits a'))"
    by blast
  then have "merge np_argsort ?h ?a ?b (-5) = Inr (h', a')
      \<and> tstart a' = Some (-5) \<and> tstop a' = Some 10 \<and> nthrown a' = Some 200
      \<and> sorted (map (\<lambda>r. time (h' ! r)) (hits a'))"
    by simp
  moreover have "argsort_ok np_argsort [1.5, 2.5 + (-5)]" using 5 by simp
  ultimately show ?thesis by blast
qed

text \<open>
  C5, as stated, fails: \<open>merge\<close> assigns to \<open>hit.time\<close> of the hits of \<open>sim2\<close> and
  appends the same objects. After the notebook's \<open>sim.merge(bkg, shift=-5)\<close> on two
  runs read by \<open>open\<close>, the hit of \<open>bkg\<close> (object 1) has the time -2.5 instead of
  2.5, and it is a hit of both runs.
\<close>

theorem merge_mutates_operand_counterexample:
  "open_sim [] (log_of_lines [''TB 0'', ''TE 10'', ''TS 100'', ''SE'', ''TI 1.5'',
          ''HT ;4.88500;4.88500;;50.0'', ''EN'']) detector_dict 0
     = Inr ([\<lparr>time = 1.5, detector = ''q0'', energy = 50\<rparr>],
            \<lparr>tstart = Some 0, tstop = Some 10, nthrown = Some 100, hits = [0]\<rparr>)
   \<and> open_sim [\<lparr>time = 1.5, detector = ''q0'', energy = 50\<rparr>]
        (log_of_lines [''TB 0'', ''TE 10'', ''TS 100'', ''SE'', ''TI 2.5'',
          ''HT ;-4.88500;4.88500;;20.0'', ''EN'']) detector_dict 0
     = Inr ([\<lparr>time = 1.5, detector = ''q0'', energy = 50\<rparr>,
             \<lparr>time = 2.5, detector = ''q1'', energy = 20\<rparr>],
            \<lparr>tstart = Some 0, tstop = Some 10, nthrown = Some 100, hits = [1]\<rparr>)
   \<and> merge np_argsort
        [\<lparr>time = 1.5, detector = ''q0'', energy = 50\<rparr>,
         \<lparr>time = 2.5, detector = ''q1'', energy = 20\<rparr>]
        \<lparr>tstart = Some 0, tstop = Some 10, nthrown = Some 100, hits = [0]\<rparr>
        \<lparr>tstart = Some 0, tstop = Some 10, nthrown = Some 100, hits = [1]\<rparr> (-5)
     = Inr ([\<lparr>time = 1.5, detector = ''q0'', energy = 50\<rparr>,
             \<lparr>time = -2.5, detector = ''q1'', energy = 20\<rparr>],
            \<lparr>tstart = Some (-5), tstop = Some 10, nthrown = Some 200, hits = [1, 0]\<rparr>)"
  by code_simp

text \<open>
  C5, amended. \<open>merge(a, b, s)\<close> overwrites the time of the hit objects of \<open>b\<close> in
  place, once for every occurrence in \<open>b.hits\<close>: after the call an object listed \<open>k\<close>
  times there has \<open>k * s\<close> added to its time, its detector and energy and all other
  objects are unchanged, and no object is created. When \<open>argsort\<close> returns every index
  once, the hits of \<open>a\<close> are its old hits and the hits of \<open>b\<close>, the very same objects,
  so every hit of \<open>b\<close> is shared with \<open>a\<close>.
\<close>

theorem merge_mutates_and_shares:
  assumes "tstart a \<noteq> None" "tstart b \<noteq> None" "tstop a \<noteq> None" "tstop b \<noteq> None"
    "nthrown a \<noteq> None" "nthrown b \<noteq> None"
  shows "\<exists>h' a'. merge argsort h a b s = Inr (h', a')
           \<and> length h' = length h
           \<and> (\<forall>x<length h. h' ! x
                 = (h ! x)\<lparr>time := time (h ! x) + s * real (count_list (hits b) x)\<rparr>)
           \<and> (sort (argsort (map (\<lambda>r. time (h' ! r)) (hits a @ hits b)))
                 = [0..<length (hits a @ hits b)]
               \<longrightarrow> mset (hits a') = mset (hits a) + mset (hits b)
                   \<and> set (hits b) \<subseteq> set (hits a'))"
proof -
  from assms obtain b1 b2 e1 e2 n1 n2 where f:
    "tstart a = Some b1" "tstart b = Some b2" "tstop a = Some e1" "tstop b = Some e2"
    "nthrown a = Some n1" "nthrown b = Some n2"
    by auto
  define hs where "hs = hits a @ hits b"
  from merge_result [OF f, of h s argsort] obtain h' idx where
    l: "length h' = length h"
    and hv: "\<And>x. x < length h \<Longrightarrow>
       h' ! x = (h ! x)\<lparr>time := time (h ! x) + s * real (count_list (hits b) x)\<rparr>"
    and idx: "idx = argsort (map (\<lambda>r. time (h' ! r)) hs)"
    and m: "merge argsort h a b s =
       Inr (h', \<lparr>tstart = Some (py_min b1 (b2 + s)), tstop = Some (py_max e1 (e2 + s)),
                 nthrown = Some (n1 + n2), hits = map (\<lambda>n. hs ! n) idx\<rparr>)"
    unfolding hs_def by blast
  have p: "mset (map (\<lambda>n. hs ! n) idx) = mset (hits a) + mset (hits b)
           \<and> set (hits b) \<subseteq> set (map (\<lambda>n. hs ! n) idx)"
    if "sort idx = [0..<length hs]"
  proof -
    from mset_map_indices [OF that] have ms: "mset (map (\<lambda>n. hs ! n) idx) = mset hs" .
    then have "set_mset (mset (map (\<lambda>n. hs ! n) idx)) = set_mset (mset hs)" by simp
    then have "set (map (\<lambda>n. hs ! n) idx) = set hs" by (simp only: set_mset_mset)
    with ms show ?thesis by (auto simp: hs_def)
  qed
  define a' where
    "a' = \<lparr>tstart = Some (py_min b1 (b2 + s)), tstop = Some (py_max e1 (e2 + s)),
            nthrown = Some (n1 + n2), hits = map (\<lambda>n. hs ! n) idx\<rparr>"
  have ha: "hits a' = map (\<lambda>n. hs ! n) idx" by (simp add: a'_def)
  have m': "merge argsort h a b s = Inr (h', a')"
    using m by (simp only: a'_def)
  have p': "sort (argsort (map (\<lambda>r. time (h' ! r)) (hits a @ hits b)))
                 = [0..<length (hits a @ hits b)]
               \<longrightarrow> mset (hits a') = mset (hits a) + mset (hits b)
                   \<and> set (hits b) \<subseteq> set (hits a')"
    using p unfolding ha idx hs_def by blast
  have hv': "\<forall>x<length h. h' ! x
                 = (h ! x)\<lparr>time := time (h ! x) + s * real (count_list (hits b) x)\<rparr>"
    using hv by blast
  from m' l hv' p' show ?thesis by blast
qed

theorem merge_mutates_and_shares_witness:
  "\<exists>h' a'. merge np_argsort
        [\<lparr>time = 1.5, detector = ''q0'', energy = 50\<rparr>,
         \<lparr>time = 2.5, detector = ''q1'', energy = 20\<rparr>]
        \<lparr>tstart = Some 0, tstop = Some 10, nthrown = Some 100, hits = [0]\<rparr>
        \<lparr>tstart = Some 0, tstop = Some 10, nthrown = Some 100, hits = [1]\<rparr> (-5) = Inr (h', a')
      \<and> h' ! 1 = \<lparr>time = -2.5, detector = ''q1'', energy = 20\<rparr>
      \<and> 1 \<in> set (hits a')"
proof -
  let ?h = "[\<lparr>time = 1.5, detector = ''q0'', energy = 50\<rparr>,
             \<lparr>time = 2.5, detector = ''q1'', energy = 20\<rparr>]"
  let ?a = "\<lparr>tstart = Some 0, tstop = Some 10, nthrown = Some 100, hits = [0]\<rparr>"
  let ?b = "\<lparr>tstart = Some 0, tstop = Some 10, nthrown = Some 100, hits = [1]\<rparr>"
  have f: "tstart ?a \<noteq> None" "tstart ?b \<noteq> None" "tstop ?a \<noteq> None" "tstop ?b \<noteq> None"
    "nthrown ?a \<noteq> None" "nthrown ?b \<noteq> None"
    by simp_all
  from merge_mutates_and_shares [OF f, of np_argsort ?h "-5"] obtain h' a' where
    m: "merge np_argsort ?h ?a ?b (-5) = Inr (h', a')"
    and v: "\<forall>x<length ?h. h' ! x
              = (?h ! x)\<lparr>time := time (?h ! x) + (-5) * real (count_list (hits ?b) x)\<rparr>"
    and p: "sort (np_argsort (map (\<lambda>r. time (h' ! r)) (hits ?a @ hits ?b)))
              = [0..<length (hits ?a @ hits ?b)]
            \<longrightarrow> set (hits ?b) \<subseteq> set (hits a')"
    by blast
  from v [rule_format, of 0] have h0: "h' ! 0 = \<lparr>time = 1.5, detector = ''q0'', energy = 50\<rparr>"
    by simp
  from v [rule_format, of 1] have h1: "h' ! 1 = \<lparr>time = -2.5, detector = ''q1'', energy = 20\<rparr>"
    by simp
  have "sort (np_argsort [1.5, -2.5]) = [0..<2]" by code_simp
  with p h0 h1 have "1 \<in> set (hits a')"
    by (simp add: numeral_2_eq_2 upt_conv_Cons)
  with m h1 show ?thesis by blast
qed

text \<open>
  C4, as stated, fails: \<open>merge\<close> sorts with the default \<open>np.argsort\<close>, a quicksort, which
  does not keep equal keys in place. Nine hits of \<open>self\<close> at time 1.5 and eight hits of
  the other run at time 6.5, merged with the shift -5, all carry the time 1.5; in the
  result the hit at position 14 of the combined collection, one of the other run,
  precedes the hits at positions 1 to 13.
\<close>

theorem merge_not_stable_counterexample:
  "merge np_argsort
      (map (\<lambda>k. \<lparr>time = (if k < 9 then 1.5 else 6.5), detector = ''q0'', energy = real k\<rparr>)
         [0..<17])
      \<lparr>tstart = Some 0, tstop = Some 10, nthrown = Some 100, hits = [0..<9]\<rparr>
      \<lparr>tstart = Some 0, tstop = Some 10, nthrown = Some 100, hits = [9..<17]\<rparr> (-5)
     = Inr (map (\<lambda>k. \<lparr>time = 1.5, detector = ''q0'', energy = real k\<rparr>) [0..<17],
            \<lparr>tstart = Some (-5), tstop = Some 10, nthrown = Some 200,
               hits = [0, 14, 13, 12, 11, 10, 9, 15, 8, 6, 5, 4, 3, 2, 1, 7, 16]\<rparr>)"
  by code_simp

text \<open>
  C4, amended: the sort performed by \<open>merge\<close> is stable when the combined collection has
  at most 16 hits. Then \<open>merge\<close> of two valid runs shifts the hits of the other run in
  place and lists the combined collection (the hits of \<open>self\<close> in their order, then
  those of the other run in theirs), every position once, in ascending order of the
  shifted times, and of two hits with equal shifted timestamps the one that was
  earlier in the combined collection is the earlier one in the merged sequence.
\<close>

theorem merge_stable_upto_16:
  assumes "tstart a \<noteq> None" "tstart b \<noteq> None" "tstop a \<noteq> None" "tstop b \<noteq> None"
    "nthrown a \<noteq> None" "nthrown b \<noteq> None"
    and "length (hits a) + length (hits b) \<le> 16"
  shows "\<exists>h' a' idx. merge np_argsort h a b s = Inr (h', a')
           \<and> length h' = length h
           \<and> (\<forall>x<length h. h' ! x =
                  (h ! x)\<lparr>time := time (h ! x) + s * real (count_list (hits b) x)\<rparr>)
           \<and> hits a' = map (\<lambda>n. (hits a @ hits b) ! n) idx
           \<and> sort idx = [0..<length (hits a) + length (hits b)]
           \<and> (\<forall>p q. p < q \<and> q < length idx
                  \<longrightarrow> time (h' ! (hits a' ! p)) \<le> time (h' ! (hits a' ! q)))
           \<and> (\<forall>p q. p < q \<and> q < length idx
                    \<and> time (h' ! (hits a' ! p)) = time (h' ! (hits a' ! q))
                  \<longrightarrow> idx ! p < idx ! q)"
proof -
  from assms obtain b1 b2 e1 e2 n1 n2 where f:
    "tstart a = Some b1" "tstart b = Some b2" "tstop a = Some e1" "tstop b = Some e2"
    "nthrown a = Some n1" "nthrown b = Some n2"
    by auto
  define hs where "hs = hits a @ hits b"
  from merge_result [OF f, of h s np_argsort] obtain h' idx where
    len: "length h' = length h"
    and st: "\<And>x. x < length h \<Longrightarrow>
       h' ! x = (h ! x)\<lparr>time := time (h ! x) + s * real (count_list (hits b) x)\<rparr>"
    and idx: "idx = np_argsort (map (\<lambda>r. time (h' ! r)) hs)"
    and m: "merge np_argsort h a b s =
       Inr (h', \<lparr>tstart = Some (py_min b1 (b2 + s)), tstop = Some (py_max e1 (e2 + s)),
                 nthrown = Some (n1 + n2), hits = map (\<lambda>n. hs ! n) idx\<rparr>)"
    unfolding hs_def by blast
  define ts where "ts = map (\<lambda>r. time (h' ! r)) hs"
  define a' where
    "a' = \<lparr>tstart = Some (py_min b1 (b2 + s)), tstop = Some (py_max e1 (e2 + s)),
            nthrown = Some (n1 + n2), hits = map (\<lambda>n. hs ! n) idx\<rparr>"
  have ha: "hits a' = map (\<lambda>n. hs ! n) idx" by (simp add: a'_def)
  have m': "merge np_argsort h a b s = Inr (h', a')"
    using m by (simp only: a'_def)
  have i': "idx = np_argsort ts" by (simp only: idx ts_def)
  have lts: "length ts = length hs" by (simp add: ts_def)
  from assms(7) have "length ts \<le> 16" by (simp add: ts_def hs_def)
  then have "stable_order ts idx" unfolding i' by (rule np_argsort_short)
  then have p: "sort idx = [0..<length hs]" and sw: "sorted_wrt (key_index_less ts) idx"
    by (simp_all add: stable_order_def lts)
  have key: "key_index_less ts (idx ! p) (idx ! q)
      \<and> ts ! (idx ! p) = time (h' ! (hits a' ! p))
      \<and> ts ! (idx ! q) = time (h' ! (hits a' ! q))"
    if pq: "p < q" "q < length idx" for p q
  proof -
    from pq sw have k: "key_index_less ts (idx ! p) (idx ! q)"
      by (simp add: sorted_wrt_iff_nth_less)
    from pq perm_indices(2) [OF p] have "idx ! p < length hs" "idx ! q < length hs"
      by (metis atLeastLessThan_iff less_trans nth_mem)+
    with pq k show ?thesis by (simp add: ha ts_def)
  qed
  have asc: "time (h' ! (hits a' ! p)) \<le> time (h' ! (hits a' ! q))"
    if "p < q" "q < length idx" for p q
    using key [OF that] by (auto simp: key_index_less_def)
  have stab: "idx ! p < idx ! q"
    if "p < q" "q < length idx" "time (h' ! (hits a' ! p)) = time (h' ! (hits a' ! q))"
    for p q
    using key [OF that(1,2)] that(3) by (auto simp: key_index_less_def)
  have 1: "\<forall>x<length h. h' ! x =
                  (h ! x)\<lparr>time := time (h ! x) + s * real (count_list (hits b) x)\<rparr>"
    using st by blast
  have 2: "hits a' = map (\<lambda>n. (hits a @ hits b) ! n) idx"
    using ha by (simp only: hs_def)
  have 3: "sort idx = [0..<length (hits a) + length (hits b)]"
    using p by (simp add: hs_def)
  have 4: "\<forall>p q. p < q \<and> q < length idx
                  \<longrightarrow> time (h' ! (hits a' ! p)) \<le> time (h' ! (hits a' ! q))"
    using asc by blast
  have 5: "\<forall>p q. p < q \<and> q < length idx
                    \<and> time (h' ! (hits a' ! p)) = time (h' ! (hits a' ! q))
                  \<longrightarrow> idx ! p < idx ! q"
    using stab by blast
  from m' len 1 2 3 4 5 show ?thesis by blast
qed

theorem merge_stable_upto_16_witness:
  "merge np_argsort
        [\<lparr>time = 1.5, detector = ''q0'', energy = 50\<rparr>,
         \<lparr>time = 6.5, detector = ''q1'', energy = 20\<rparr>]
        \<lparr>tstart = Some 0, tstop = Some 10, nthrown = Some 100, hits = [0]\<rparr>
        \<lparr>tstart = Some 0, tstop = Some 10, nthrown = Some 100, hits = [1]\<rparr> (-5)
     = Inr ([\<lparr>time = 1.5, detector = ''q0'', energy = 50\<rparr>,
             \<lparr>time = 1.5, detector = ''q1'', energy = 20\<rparr>],
            \<lparr>tstart = Some (-5), tstop = Some 10, nthrown = Some 200, hits = [0, 1]\<rparr>)
   \<and> (\<exists>idx. [0, 1] = map (\<lambda>n. [0, 1 :: nat] ! n) idx \<and> idx ! 0 < idx ! 1)"
proof -
  let ?h = "[\<lparr>time = 1.5, detector = ''q0'', energy = 50\<rparr>,
             \<lparr>time = 6.5, detector = ''q1'', energy = 20\<rparr>]"
  let ?a = "\<lparr>tstart = Some 0, tstop = Some 10, nthrown = Some 100, hits = [0]\<rparr>"
  let ?b = "\<lparr>tstart = Some 0, tstop = Some 10, nthrown = Some 100, hits = [1]\<rparr>"
  let ?h' = "[\<lparr>time = 1.5, detector = ''q0'', energy = 50\<rparr>,
              \<lparr>time = 1.5, detector = ''q1'', energy = 20\<rparr>]"
  let ?a' = "\<lparr>tstart = Some (-5), tstop = Some 10, nthrown = Some 200, hits = [0, 1]\<rparr>"
  have f: "tstart ?a \<noteq> None" "tstart ?b \<noteq> None" "tstop ?a \<noteq> None" "tstop ?b \<noteq> None"
    "nthrown ?a \<noteq> None" "nthrown ?b \<noteq> None"
    by simp_all
  have l: "length (hits ?a) + length (hits ?b) \<le> 16" by simp
  have e: "merge np_argsort ?h ?a ?b (-5) = Inr (?h', ?a')" by code_simp
  from merge_stable_upto_16 [OF f l, of ?h "-5"] obtain h' a' idx where
    r: "merge np_argsort ?h ?a ?b (-5) = Inr (h', a')"
    and i: "hits a' = map (\<lambda>n. (hits ?a @ hits ?b) ! n) idx"
    and s: "sort idx = [0..<length (hits ?a) + length (hits ?b)]"
    and t: "\<forall>p q. p < q \<and> q < length idx
                    \<and> time (h' ! (hits a' ! p)) = time (h' ! (hits a' ! q))
                  \<longrightarrow> idx ! p < idx ! q"
    by blast
  from r e have eq: "h' = ?h'" "a' = ?a'" by simp_all
  from s have "length (sort idx) = 2" by simp
  then have li: "length idx = 2" by simp
  from t [rule_format, of 0 1] li have "idx ! 0 < idx ! 1" by (simp add: eq)
  moreover from i have "[0, 1] = map (\<lambda>n. [0, 1 :: nat] ! n) idx" by (simp add: eq)
  ultimately have "\<exists>idx. [0, 1] = map (\<lambda>n. [0, 1 :: nat] ! n) idx \<and> idx ! 0 < idx ! 1"
    by (intro exI [of _ idx] conjI)
  with e show ?thesis by blast
qed

end
